theory Spec2Isabelle
  imports Main "HOL-Library.Sublist" "HOL-Library.Multiset" "HOL-Library.AList"
begin

section \<open>Strings as Go has them\<close>

text \<open>
  A Go \<^verbatim>\<open>string\<close> is a sequence of bytes and \<^verbatim>\<open>len\<close> counts bytes, so a Go string is
  a \<^typ>\<open>string\<close> (a list of 8-bit characters) and \<^verbatim>\<open>len\<close> is \<^const>\<open>length\<close>.
  Indexing and slicing outside the string panic in Go; the panic is a value of
  \<open>go_panic\<close> here and every function that indexes returns a sum.
\<close>

datatype go_panic = IndexOutOfRange | SliceBoundsOutOfRange

text \<open>\<^verbatim>\<open>s[i]\<close>\<close>

definition index_byte :: "string \<Rightarrow> nat \<Rightarrow> go_panic + char" where
  "index_byte s i = (if i < length s then Inr (s ! i) else Inl IndexOutOfRange)"

text \<open>\<^verbatim>\<open>s[lo:hi]\<close>\<close>

definition slice_str :: "string \<Rightarrow> nat \<Rightarrow> nat \<Rightarrow> go_panic + string" where
  "slice_str s lo hi =
     (if lo \<le> hi \<and> hi \<le> length s then Inr (take (hi - lo) (drop lo s))
      else Inl SliceBoundsOutOfRange)"

text \<open>\<^verbatim>\<open>s[i] == c\<close>, which panics when \<^verbatim>\<open>s[i]\<close> does.\<close>

definition byte_is :: "string \<Rightarrow> nat \<Rightarrow> char \<Rightarrow> go_panic + bool" where
  "byte_is s i c = (case index_byte s i of Inl e \<Rightarrow> Inl e | Inr b \<Rightarrow> Inr (b = c))"

text \<open>
  \<^verbatim>\<open>a && b\<close>: the right operand is evaluated only when the left one is true, so a
  panic of the right operand happens only then.
\<close>

definition andalso :: "go_panic + bool \<Rightarrow> go_panic + bool \<Rightarrow> go_panic + bool" where
  "andalso a b = (case a of Inl e \<Rightarrow> Inl e | Inr False \<Rightarrow> Inr False | Inr True \<Rightarrow> b)"

text \<open>\<^verbatim>\<open>a + " " + b\<close> for two slices, either of which may have panicked.\<close>

definition join_space :: "go_panic + string \<Rightarrow> go_panic + string \<Rightarrow> go_panic + string" where
  "join_space a b =
     (case a of Inl e \<Rightarrow> Inl e
      | Inr x \<Rightarrow> (case b of Inl e \<Rightarrow> Inl e | Inr y \<Rightarrow> Inr (x @ '' '' @ y)))"

section \<open>The timestamp normalizer\<close>

text \<open>
  \<^verbatim>\<open>parse_time\<close> of \<^verbatim>\<open>auditparser.go\<close>. The two conditions are the source's, operand by
  operand and in its order.
\<close>

definition is_time_millis :: "string \<Rightarrow> go_panic + bool" where
  "is_time_millis timevalue =
     andalso (andalso (andalso (andalso (andalso
       (Inr (length timevalue = 23 \<or> length timevalue = 24))
       (byte_is timevalue 4 CHR ''-''))
       (byte_is timevalue 7 CHR ''-''))
       (byte_is timevalue 13 CHR '':''))
       (byte_is timevalue 16 CHR '':''))
       (byte_is timevalue 19 CHR ''.'')"

definition is_time_seconds :: "string \<Rightarrow> go_panic + bool" where
  "is_time_seconds timevalue =
     andalso (andalso (andalso (andalso
       (Inr (length timevalue = 19 \<or> length timevalue = 20))
       (byte_is timevalue 4 CHR ''-''))
       (byte_is timevalue 7 CHR ''-''))
       (byte_is timevalue 13 CHR '':''))
       (byte_is timevalue 16 CHR '':'')"

definition parse_time :: "string \<Rightarrow> go_panic + string" where
  "parse_time timevalue =
     (case is_time_millis timevalue of
        Inl e \<Rightarrow> Inl e
      | Inr True \<Rightarrow> join_space (slice_str timevalue 0 10) (slice_str timevalue 11 23)
      | Inr False \<Rightarrow>
          (case is_time_seconds timevalue of
             Inl e \<Rightarrow> Inl e
           | Inr True \<Rightarrow> join_space (slice_str timevalue 0 10) (slice_str timevalue 11 19)
           | Inr False \<Rightarrow> Inr timevalue))"

text \<open>
  What the two conditions come to once the bounds are known to hold: the length and the
  separator bytes, nothing else.
\<close>

definition millis_shape :: "string \<Rightarrow> bool" where
  "millis_shape s \<longleftrightarrow>
     (length s = 23 \<or> length s = 24) \<and> s ! 4 = CHR ''-'' \<and> s ! 7 = CHR ''-'' \<and>
     s ! 13 = CHR '':'' \<and> s ! 16 = CHR '':'' \<and> s ! 19 = CHR ''.''"

definition seconds_shape :: "string \<Rightarrow> bool" where
  "seconds_shape s \<longleftrightarrow>
     (length s = 19 \<or> length s = 20) \<and> s ! 4 = CHR ''-'' \<and> s ! 7 = CHR ''-'' \<and>
     s ! 13 = CHR '':'' \<and> s ! 16 = CHR '':''"

section \<open>Options and configuration\<close>

text \<open>
  The fields of \<^verbatim>\<open>Main_Config_JSON\<close> and \<^verbatim>\<open>Options\<close> (\<^verbatim>\<open>timeliner.go\<close>) that the parsing
  engine reads.
\<close>

record AuditHeaderConfig =
  ItemName :: string
  HeaderOrder :: "string list"
  HeadersOmitted :: "string list"

record Main_Config_JSON =
  OmitUnlisted :: bool
  HeadersMandatory :: "string list"
  HeadersOptional :: "string list"
  AuditHeaderConfigs :: "AuditHeaderConfig list"

record Options =
  Config :: Main_Config_JSON
  ReplaceNewLineFeeds :: bool
  ForceReparse :: bool
  ExcelFriendly :: bool
  WipeOutput :: bool
  Warnbox :: string
  Box :: string

section \<open>Library functions on strings\<close>

definition CR :: char where "CR = CHR 0x0D"
definition LF :: char where "LF = CHR 0x0A"

text \<open>
  \<^verbatim>\<open>strings.Replace(s, old, new, -1)\<close> for a non-empty \<^verbatim>\<open>old\<close>, as at every call of the
  engine: the occurrences of \<^verbatim>\<open>old\<close> are replaced from the left and do not overlap.
\<close>

fun Replace :: "string \<Rightarrow> string \<Rightarrow> string \<Rightarrow> string" where
  "Replace [] old new = []"
| "Replace (c # cs) old new =
     (if old \<noteq> [] \<and> prefix old (c # cs)
      then new @ Replace (drop (length old - 1) cs) old new
      else c # Replace cs old new)"

text \<open>\<^verbatim>\<open>strings.Join(elems, sep)\<close>\<close>

fun Join :: "string list \<Rightarrow> string \<Rightarrow> string" where
  "Join [] sep = []"
| "Join [e] sep = e"
| "Join (e # es) sep = e @ sep @ Join es sep"

text \<open>
  \<^verbatim>\<open>strings.ToLower\<close>, \<^verbatim>\<open>strings.ToUpper\<close> and \<^verbatim>\<open>strings.TrimSpace\<close> on the ASCII range, which
  holds the markers the engine looks for and every column name its own patterns let
  through; a byte from 128 up is left as it is by \<open>ToLower\<close> and is no space for
  \<open>TrimSpace\<close>. \<^verbatim>\<open>strings.HasPrefix\<close> is \<^const>\<open>prefix\<close> with the arguments swapped.
\<close>

definition lower_letters :: string where
  "lower_letters = ''abcdefghijklmnopqrstuvwxyz''"

definition upper_letters :: string where
  "upper_letters = ''ABCDEFGHIJKLMNOPQRSTUVWXYZ''"

definition to_lower_byte :: "char \<Rightarrow> char" where
  "to_lower_byte c = (case map_of (zip upper_letters lower_letters) c of Some l \<Rightarrow> l | None \<Rightarrow> c)"

definition ToLower :: "string \<Rightarrow> string" where
  "ToLower s = map to_lower_byte s"

text \<open>
  \<^verbatim>\<open>strings.ToUpper\<close> of a string of one byte, the only use the engine makes of it. A
  byte from 128 up is no valid UTF-8 on its own and comes out as the replacement
  character U+FFFD.
\<close>

definition ToUpper1 :: "char \<Rightarrow> string" where
  "ToUpper1 c =
     (case map_of (zip lower_letters upper_letters) c of
        Some u \<Rightarrow> [u]
      | None \<Rightarrow> if digit7 c then [CHR 0xEF, CHR 0xBF, CHR 0xBD] else [c])"

definition is_space :: "char \<Rightarrow> bool" where
  "is_space c \<longleftrightarrow> c \<in> set [CHR 0x09, CHR 0x0A, CHR 0x0B, CHR 0x0C, CHR 0x0D, CHR 0x20]"

definition TrimSpace :: "string \<Rightarrow> string" where
  "TrimSpace s = rev (dropWhile is_space (rev (dropWhile is_space s)))"

definition HasPrefix :: "string \<Rightarrow> string \<Rightarrow> bool" where
  "HasPrefix s pre = prefix pre s"

definition HasSuffix :: "string \<Rightarrow> string \<Rightarrow> bool" where
  "HasSuffix s suf = suffix suf s"

text \<open>\<^verbatim>\<open>strings.Contains(s, substr)\<close>\<close>

fun Contains :: "string \<Rightarrow> string \<Rightarrow> bool" where
  "Contains [] substr = (substr = [])"
| "Contains (c # cs) substr = (prefix substr (c # cs) \<or> Contains cs substr)"

text \<open>\<^verbatim>\<open>UpperCamelCase\<close>: the first byte in upper case, the rest as it is.\<close>

definition UpperCamelCase :: "string \<Rightarrow> string" where
  "UpperCamelCase s = (case s of [] \<Rightarrow> [] | c # cs \<Rightarrow> ToUpper1 c @ cs)"

section \<open>The row accumulator\<close>

text \<open>
  A header table is the Go map \<^verbatim>\<open>map[string]int\<close> from column name to column id. It is
  kept as an association list with one pair per key, so that \<^verbatim>\<open>len(headers)\<close> is the
  length of the list: \<^verbatim>\<open>headers[k]\<close> is \<^const>\<open>map_of\<close>, and \<^verbatim>\<open>headers[k] = v\<close> is
  \<^const>\<open>AList.update\<close>, which replaces the pair of an existing key and appends a new
  one. The order of the pairs is not visible to the Go code.
\<close>

type_synonym headers = "(string \<times> nat) list"

text \<open>
  The value transform both accumulators start with: the timestamp normalizer, then the
  three replacements when \<^verbatim>\<open>ReplaceNewLineFeeds\<close> is set.
\<close>

definition replace_newlines :: "Options \<Rightarrow> string \<Rightarrow> string" where
  "replace_newlines options v =
     (if ReplaceNewLineFeeds options
      then Replace (Replace (Replace v [CR, LF] ''|'') [LF] ''|'') [CR] ''|''
      else v)"

text \<open>The lookup of the column id, which adds the header with the next id when it is new.\<close>

definition header_colID :: "string \<Rightarrow> headers \<Rightarrow> nat \<times> headers" where
  "header_colID header headers =
     (case map_of headers header of
        Some colID \<Rightarrow> (colID, headers)
      | None \<Rightarrow> (length headers, AList.update header (length headers) headers))"

text \<open>The separator put before a value that joins an existing cell.\<close>

definition with_separator :: "Options \<Rightarrow> bool \<Rightarrow> string \<Rightarrow> string" where
  "with_separator options existingGetsNewLine v =
     (if existingGetsNewLine
      then (if ReplaceNewLineFeeds options then ''|'' @ v else [CR, LF] @ v)
      else v)"

text \<open>
  \<^verbatim>\<open>add_value_to_row_normal\<close>. The row is \<^verbatim>\<open>map[int]*strings.Builder\<close>, a map from column
  id to the text written so far, kept as an association list like the header table. The
  Go function updates both maps in place; the model returns them. The parameter
  \<^verbatim>\<open>value\<close> is \<open>v\<close> here.
\<close>

type_synonym row_normal = "(nat \<times> string) list"

text \<open>The column name of a nested field: the nesting stack joined by dots, then the tag.\<close>

definition path_header :: "string list \<Rightarrow> string \<Rightarrow> string" where
  "path_header headerPathParts header =
     (if length headerPathParts > 0 then Join headerPathParts ''.'' @ ''.'' @ header
      else header)"

definition add_value_to_row_normal ::
  "string \<Rightarrow> string \<Rightarrow> string list \<Rightarrow> headers \<Rightarrow> row_normal \<Rightarrow> Options \<Rightarrow> bool \<Rightarrow> bool
   \<Rightarrow> go_panic + (headers \<times> row_normal)" where
  "add_value_to_row_normal header v headerPathParts headers row options
       existingGetsNewLine include_value =
     (if \<not> include_value then Inr (headers, row)
      else
        let header = path_header headerPathParts header
        in case parse_time v of
             Inl e \<Rightarrow> Inl e
           | Inr v \<Rightarrow>
               let v = replace_newlines options v;
                   (colID, headers) = header_colID header headers
               in (case map_of row colID of
                     Some old \<Rightarrow>
                       Inr (headers,
                            AList.update colID
                              (old @ with_separator options existingGetsNewLine v) row)
                   | None \<Rightarrow> Inr (headers, AList.update colID v row)))"

text \<open>
  \<^verbatim>\<open>add_value_to_row_eventbuffer\<close>. The row is a slice of \<^verbatim>\<open>RowValue\<close>, whose field
  \<^verbatim>\<open>value\<close> is \<open>cell\<close> here; the loop appends to the first cell with the column id and
  stops there.
\<close>

record RowValue =
  colid :: nat
  cell :: string

fun append_to_cell :: "nat \<Rightarrow> Options \<Rightarrow> bool \<Rightarrow> string \<Rightarrow> RowValue list
    \<Rightarrow> RowValue list \<times> bool" where
  "append_to_cell colID options existingValueGetsNewLine v [] = ([], False)"
| "append_to_cell colID options existingValueGetsNewLine v (rowvalue # rest) =
     (if colid rowvalue = colID
      then (rowvalue\<lparr>cell := cell rowvalue @ with_separator options existingValueGetsNewLine v\<rparr>
              # rest, True)
      else (let (rest', found) = append_to_cell colID options existingValueGetsNewLine v rest
            in (rowvalue # rest', found)))"

definition add_value_to_row_eventbuffer ::
  "string \<Rightarrow> string \<Rightarrow> headers \<Rightarrow> RowValue list \<Rightarrow> Options \<Rightarrow> bool
   \<Rightarrow> go_panic + (headers \<times> RowValue list)" where
  "add_value_to_row_eventbuffer header v headers row options existingValueGetsNewLine =
     (case parse_time v of
        Inl e \<Rightarrow> Inl e
      | Inr v \<Rightarrow>
          let v = replace_newlines options v;
              (colID, headers) = header_colID header headers;
              (row', found) = append_to_cell colID options existingValueGetsNewLine v row
          in if found then Inr (headers, row')
             else Inr (headers, row @ [\<lparr>colid = colID, cell = v\<rparr>]))"

section \<open>What a parse does to the header table and the rows\<close>

text \<open>
  The three parsers are state machines over the lines of a file. They touch the header
  table and the row under construction through the two functions above and nowhere
  else, so as far as the tables go a record is the list of the calls it makes, and a file
  is the list of its records.
\<close>

subsection \<open>The Normal parser\<close>

text \<open>
  One call of \<^verbatim>\<open>add_value_to_row_normal\<close>: the tag name, the value, the nesting stack at
  that line, and the two flags.
\<close>

record call_normal =
  c_header :: string
  c_value :: string
  c_headerPathParts :: "string list"
  c_existingGetsNewLine :: bool
  c_include_value :: bool

fun record_normal :: "Options \<Rightarrow> call_normal list \<Rightarrow> headers \<Rightarrow> row_normal
    \<Rightarrow> go_panic + (headers \<times> row_normal)" where
  "record_normal options [] headers row = Inr (headers, row)"
| "record_normal options (c # cs) headers row =
     (case add_value_to_row_normal (c_header c) (c_value c) (c_headerPathParts c) headers row
             options (c_existingGetsNewLine c) (c_include_value c) of
        Inl e \<Rightarrow> Inl e
      | Inr (headers', row') \<Rightarrow> record_normal options cs headers' row')"

text \<open>
  A record starts with an empty row. The row joins \<^verbatim>\<open>rows\<close> when the next record or the
  end of the list is met, and only if \<^verbatim>\<open>len(row) != 0\<close>.
\<close>

fun records_normal :: "Options \<Rightarrow> call_normal list list \<Rightarrow> headers \<Rightarrow> row_normal list
    \<Rightarrow> go_panic + (headers \<times> row_normal list)" where
  "records_normal options [] headers rows = Inr (headers, rows)"
| "records_normal options (r # rs) headers rows =
     (case record_normal options r headers [] of
        Inl e \<Rightarrow> Inl e
      | Inr (headers', row) \<Rightarrow>
          records_normal options rs headers' (if row \<noteq> [] then rows @ [row] else rows))"

text \<open>The Normal parser starts with \<^verbatim>\<open>headers := map[string]int{}\<close> and no rows.\<close>

definition parse_normal :: "Options \<Rightarrow> call_normal list list
    \<Rightarrow> go_panic + (headers \<times> row_normal list)" where
  "parse_normal options recs = records_normal options recs [] []"

subsection \<open>The EventBuffer and StateAgentInspector parsers\<close>

text \<open>
  Where the header name of a call comes from. Both parsers record the attributes of the
  \<^verbatim>\<open>eventItem\<close> tag; the EventBuffer parser then records the fields of the event, named by
  their tags; the StateAgentInspector parser records the timestamp of the event and its
  details, named by their \<^verbatim>\<open>name\<close> elements.
\<close>

datatype column_source =
    Attr_UID
  | Attr_SequenceNumber
  | Attr_Ext1
  | Attr_Ext2
  | Event_Timestamp
  | Field string
  | Detail string

text \<open>\<^verbatim>\<open>ExtraFunc7\<close> of \<^verbatim>\<open>timeliner.go\<close>, whatever its arguments.\<close>

definition ExtraFunc7 :: "Options \<Rightarrow> nat \<Rightarrow> string" where
  "ExtraFunc7 options attr = ''Extra''"

text \<open>The renaming of a field of the EventBuffer parser, two tests one after the other.\<close>

definition field_header :: "string \<Rightarrow> string \<Rightarrow> string" where
  "field_header eventType tag =
     (let field = UpperCamelCase tag;
          field = (if field = ''Timestamp'' then ''EventBufferTime_'' @ eventType else field);
          field = (if field = ''Hostname'' then ''DNSHostname'' else field)
      in field)"

text \<open>The renaming of a detail name of the StateAgentInspector parser.\<close>

definition detail_header :: "string \<Rightarrow> string" where
  "detail_header name =
     (let field_name = UpperCamelCase name
      in if field_name = ''Hostname'' then ''DNSHostname'' else field_name)"

fun header_of :: "Options \<Rightarrow> string \<Rightarrow> column_source \<Rightarrow> string" where
  "header_of options eventType Attr_UID = ''UID''"
| "header_of options eventType Attr_SequenceNumber = ''Sequence Number''"
| "header_of options eventType Attr_Ext1 = ExtraFunc7 options 1"
| "header_of options eventType Attr_Ext2 = ExtraFunc7 options 2"
| "header_of options eventType Event_Timestamp = ''EventBufferTime_'' @ eventType"
| "header_of options eventType (Field tag) = field_header eventType tag"
| "header_of options eventType (Detail name) = detail_header name"

text \<open>One call of \<^verbatim>\<open>add_value_to_row_eventbuffer\<close>.\<close>

record call_event =
  e_source :: column_source
  e_value :: string
  e_existingValueGetsNewLine :: bool

fun record_event :: "Options \<Rightarrow> string \<Rightarrow> call_event list \<Rightarrow> headers \<Rightarrow> RowValue list
    \<Rightarrow> go_panic + (headers \<times> RowValue list)" where
  "record_event options eventType [] headers row = Inr (headers, row)"
| "record_event options eventType (c # cs) headers row =
     (case add_value_to_row_eventbuffer (header_of options eventType (e_source c)) (e_value c)
             headers row options (e_existingValueGetsNewLine c) of
        Inl e \<Rightarrow> Inl e
      | Inr (headers', row') \<Rightarrow> record_event options eventType cs headers' row')"

text \<open>
  The tables of a file: \<^verbatim>\<open>eventTypes\<close> maps an event type to its id, \<^verbatim>\<open>allHeaders\<close> and
  \<^verbatim>\<open>tables\<close> are slices indexed by that id.
\<close>

record event_tables =
  eventTypes :: "(string \<times> nat) list"
  allHeaders :: "headers list"
  tables :: "RowValue list list list"

text \<open>
  What both parsers do when the event type of an event is read: a new type gets the next
  id, an empty table, and a header table in which \<^verbatim>\<open>Hostname\<close> and \<^verbatim>\<open>AgentID\<close> are then
  stored through the index \<^verbatim>\<open>eventTypeID\<close>.
\<close>

definition set_header_at :: "nat \<Rightarrow> string \<Rightarrow> nat \<Rightarrow> headers list \<Rightarrow> go_panic + headers list" where
  "set_header_at i header colID hs =
     (if i < length hs then Inr (hs[i := AList.update header colID (hs ! i)])
      else Inl IndexOutOfRange)"

definition event_type_id :: "string \<Rightarrow> event_tables \<Rightarrow> go_panic + (nat \<times> event_tables)" where
  "event_type_id eventType st =
     (case map_of (eventTypes st) eventType of
        Some val \<Rightarrow> Inr (val, st)
      | None \<Rightarrow>
          let eventTypeID = length (eventTypes st)
          in case set_header_at eventTypeID ''Hostname'' 0 (allHeaders st @ [[]]) of
               Inl e \<Rightarrow> Inl e
             | Inr hs \<Rightarrow>
                 (case set_header_at eventTypeID ''AgentID'' 1 hs of
                    Inl e \<Rightarrow> Inl e
                  | Inr hs' \<Rightarrow>
                      Inr (eventTypeID,
                           st\<lparr>eventTypes := AList.update eventType eventTypeID (eventTypes st),
                              tables := tables st @ [[]],
                              allHeaders := hs'\<rparr>)))"

text \<open>
  One event: the type is looked up, the calls of the event work on
  \<^verbatim>\<open>allHeaders[eventTypeID]\<close> and a fresh row, and the row joins \<^verbatim>\<open>tables[eventTypeID]\<close> if
  \<^verbatim>\<open>len(row) != 0\<close>. The type name is the tag or the \<^verbatim>\<open>eventType\<close> element, passed
  through \<^verbatim>\<open>UpperCamelCase\<close>.
\<close>

definition event_item :: "Options \<Rightarrow> string \<times> call_event list \<Rightarrow> event_tables
    \<Rightarrow> go_panic + event_tables" where
  "event_item options ev st =
     (let eventType = UpperCamelCase (fst ev)
      in case event_type_id eventType st of
           Inl e \<Rightarrow> Inl e
         | Inr (eventTypeID, st1) \<Rightarrow>
             if \<not> eventTypeID < length (allHeaders st1) then Inl IndexOutOfRange
             else
               (case record_event options eventType (snd ev) (allHeaders st1 ! eventTypeID) [] of
                  Inl e \<Rightarrow> Inl e
                | Inr (headers', row) \<Rightarrow>
                    let st2 = st1\<lparr>allHeaders := (allHeaders st1)[eventTypeID := headers']\<rparr>
                    in if row = [] then Inr st2
                       else if \<not> eventTypeID < length (tables st2) then Inl IndexOutOfRange
                       else Inr (st2\<lparr>tables :=
                              (tables st2)[eventTypeID := tables st2 ! eventTypeID @ [row]]\<rparr>)))"

fun event_items :: "Options \<Rightarrow> (string \<times> call_event list) list \<Rightarrow> event_tables
    \<Rightarrow> go_panic + event_tables" where
  "event_items options [] st = Inr st"
| "event_items options (ev # evs) st =
     (case event_item options ev st of Inl e \<Rightarrow> Inl e | Inr st' \<Rightarrow> event_items options evs st')"

definition parse_events :: "Options \<Rightarrow> (string \<times> call_event list) list
    \<Rightarrow> go_panic + event_tables" where
  "parse_events options evs =
     event_items options evs \<lparr>eventTypes = [], allHeaders = [], tables = []\<rparr>"

section \<open>Well-formed tables\<close>

text \<open>
  A header table is well formed when every name stands in it once and the ids are
  \<open>0, 1, \<dots>, n - 1\<close> in the order in which the names were added.
\<close>

definition headers_ok :: "headers \<Rightarrow> bool" where
  "headers_ok hs \<longleftrightarrow> distinct (map fst hs) \<and> map snd hs = [0..<length hs]"

text \<open>The column ids of a row, for either kind of row.\<close>

definition ids_normal :: "row_normal \<Rightarrow> nat set" where
  "ids_normal row = fst ` set row"

definition ids_event :: "RowValue list \<Rightarrow> nat set" where
  "ids_event row = colid ` set row"

text \<open>The header table an event type starts with.\<close>

definition seeded_headers :: headers where
  "seeded_headers = [(''Hostname'', 0), (''AgentID'', 1)]"

definition tables_ok :: "event_tables \<Rightarrow> bool" where
  "tables_ok st \<longleftrightarrow>
     length (allHeaders st) = length (eventTypes st) \<and>
     length (tables st) = length (eventTypes st) \<and>
     headers_ok (eventTypes st) \<and>
     (\<forall>i < length (allHeaders st).
        headers_ok (allHeaders st ! i) \<and> prefix seeded_headers (allHeaders st ! i) \<and>
        (\<forall>row \<in> set (tables st ! i). \<forall>c \<in> ids_event row.
           c < length (allHeaders st ! i) \<and> c \<noteq> 0))"

definition separator :: "Options \<Rightarrow> string" where
  "separator options = (if ReplaceNewLineFeeds options then ''|'' else [CR, LF])"

text \<open>
  C1. A field whose column id already has a cell in the open row: the cell keeps what it
  held and gets the separator and the new value (after the value transform) appended; no
  cell is added and no other cell changes. The separator is \<^verbatim>\<open>\r\n\<close>, or \<^verbatim>\<open>|\<close> when
  \<^verbatim>\<open>ReplaceNewLineFeeds\<close> is set. This holds for the row of the Normal parser and for the
  row of the two event parsers. In particular a record with the same field twice, with
  the values \<^verbatim>\<open>a\<close> and \<^verbatim>\<open>b\<close>, gives a row of one cell that holds \<^verbatim>\<open>a\<close>, the separator
  and \<^verbatim>\<open>b\<close>.
\<close>

text \<open>
  One state of the event tables grows into another when every table that was there is
  still there, with every pair it held at the place it held it.
\<close>

definition tables_grow :: "event_tables \<Rightarrow> event_tables \<Rightarrow> bool" where
  "tables_grow st st' \<longleftrightarrow>
     prefix (eventTypes st) (eventTypes st') \<and>
     length (allHeaders st) \<le> length (allHeaders st') \<and>
     (\<forall>i < length (allHeaders st). prefix (allHeaders st ! i) (allHeaders st' ! i))"

text \<open>
  C2. In a header table every name stands once and the ids are \<open>0, \<dots>, n - 1\<close>. Looking a
  column up keeps every pair the table held; a new name gets the id \<open>n\<close>, which no name
  had, and joins the table at its end, and a known name leaves the table as it is. This
  holds through a whole parse, for the table of the Normal parser and for the table of
  each event type of the two event parsers: tables only grow, the table of a finished
  parse is well formed, and every column id of every row collected is the id of exactly
  one name of its table.
\<close>

section \<open>Rendering the rows\<close>





section \<open>Excel-friendly output\<close>








section \<open>The dialect detector\<close>

text \<open>
  The first lines of \<^verbatim>\<open>GoAuditParser_Thread\<close>: the probe that opens the file, scans
  lines and sets \<^verbatim>\<open>auditXMLStyle\<close>. The file is the list of the lines the scanner
  yields. The styles are the source's integers; 0 is the value before any style is set.
\<close>

definition AUDIT_NORMAL :: nat where "AUDIT_NORMAL = 1"
definition AUDIT_EVENTBUFFER :: nat where "AUDIT_EVENTBUFFER = 2"
definition AUDIT_STATEAGENTINSPECTOR :: nat where "AUDIT_STATEAGENTINSPECTOR = 3"

definition DQ :: char where "DQ = CHR 0x22"

definition generator_eventbuffer :: string where
  "generator_eventbuffer = ''generator='' @ [DQ] @ ''eventbuffer'' @ [DQ]"

definition generator_stateagentinspector :: string where
  "generator_stateagentinspector = ''generator='' @ [DQ] @ ''stateagentinspector'' @ [DQ]"

text \<open>
  How the probe ends: with one of the three messages it sends from inside the loop, or
  by leaving the loop with the values of \<^verbatim>\<open>row_count\<close>, \<^verbatim>\<open>itemListLine\<close> and
  \<^verbatim>\<open>auditXMLStyle\<close>. The error messages carry the offending line.
\<close>

datatype probe_end =
    Unexpected_1st_Line string
  | Issues_file_ignored
  | Unexpected_2nd_Line string
  | Loop_left nat string nat

text \<open>
  The loop \<^verbatim>\<open>for scanner.Scan()\<close>. The second component of the result is the number of
  lines the scanner has handed out when the probe ends.
\<close>

fun probe_loop :: "string list \<Rightarrow> nat \<Rightarrow> string \<Rightarrow> nat \<Rightarrow> probe_end \<times> nat" where
  "probe_loop [] row_count itemListLine auditXMLStyle =
     (Loop_left row_count itemListLine auditXMLStyle, row_count)"
| "probe_loop (text # rest) row_count itemListLine auditXMLStyle =
     (let row_count = row_count + 1;
          itemListLine = TrimSpace text
      in if row_count = 1 \<and> \<not> HasPrefix itemListLine ''<?xml''
         then (Unexpected_1st_Line itemListLine, row_count)
         else if row_count = 2
         then (let itemListLine = ToLower itemListLine
               in if HasPrefix itemListLine ''<issuelist'' then (Issues_file_ignored, row_count)
                  else if \<not> HasPrefix itemListLine ''<itemlist''
                  then (Unexpected_2nd_Line itemListLine, row_count)
                  else
                    let auditXMLStyle = AUDIT_NORMAL;
                        auditXMLStyle = (if Contains itemListLine generator_eventbuffer
                                         then AUDIT_EVENTBUFFER else auditXMLStyle);
                        auditXMLStyle = (if Contains itemListLine generator_stateagentinspector
                                         then AUDIT_STATEAGENTINSPECTOR else auditXMLStyle)
                    in if row_count \<ge> 3
                       then (Loop_left row_count itemListLine auditXMLStyle, row_count)
                       else probe_loop rest row_count itemListLine auditXMLStyle)
         else if row_count \<ge> 3
         then (Loop_left row_count itemListLine auditXMLStyle, row_count)
         else probe_loop rest row_count itemListLine auditXMLStyle)"

text \<open>The classification: what the probe reports, or the style it hands to the parsers.\<close>

datatype classification =
    UnexpectedFirstLine string
  | IssuesFile
  | MalformedHeader string
  | UnexpectedSchema
  | Style nat

definition detect :: "string list \<Rightarrow> classification \<times> nat" where
  "detect lines =
     (case probe_loop lines 0 [] 0 of
        (Unexpected_1st_Line l, n) \<Rightarrow> (UnexpectedFirstLine l, n)
      | (Issues_file_ignored, n) \<Rightarrow> (IssuesFile, n)
      | (Unexpected_2nd_Line l, n) \<Rightarrow> (MalformedHeader l, n)
      | (Loop_left row_count itemListLine auditXMLStyle, n) \<Rightarrow>
          if auditXMLStyle = 0 then (UnexpectedSchema, n) else (Style auditXMLStyle, n))"

text \<open>The spec's words for the style of a lower-cased second line.\<close>

definition style_of_itemlist :: "string \<Rightarrow> nat" where
  "style_of_itemlist l =
     (if Contains l generator_stateagentinspector then AUDIT_STATEAGENTINSPECTOR
      else if Contains l generator_eventbuffer then AUDIT_EVENTBUFFER
      else AUDIT_NORMAL)"

section \<open>The parse cache and the work list\<close>

text \<open>
  What the orchestrator reads of an \<^verbatim>\<open>os.FileInfo\<close>: the base name and the size. An entry
  of the cache is a \<^verbatim>\<open>Parse_Config_XMLFile\<close>. The cache is the slice
  \<^verbatim>\<open>config.OutputDirectories[dirIndex].XMLFiles\<close> of the output directory in use, which is
  the only part of \<^verbatim>\<open>config\<close> these functions read or write.
\<close>

record FileInfo =
  Name :: string
  Size :: int

record Parse_Config_XMLFile =
  InputFileName :: string
  InputFileSize :: int
  Status :: string

definition same_file :: "FileInfo \<Rightarrow> Parse_Config_XMLFile \<Rightarrow> bool" where
  "same_file xmlfile xmlFile \<longleftrightarrow>
     InputFileSize xmlFile = Size xmlfile \<and> InputFileName xmlFile = Name xmlfile"

text \<open>
  \<^verbatim>\<open>InputConfig_GetXMLParseConfig\<close>: the first entry with the name and the size of the
  file, or a new entry with the status \<^verbatim>\<open>failed/notattemptedyet\<close> at the end of the cache.
\<close>

definition InputConfig_GetXMLParseConfig ::
  "FileInfo \<Rightarrow> Parse_Config_XMLFile list \<Rightarrow> Parse_Config_XMLFile list \<times> Parse_Config_XMLFile" where
  "InputConfig_GetXMLParseConfig xmlfile XMLFiles =
     (case find (same_file xmlfile) XMLFiles of
        Some xmlFile \<Rightarrow> (XMLFiles, xmlFile)
      | None \<Rightarrow>
          (let new = \<lparr>InputFileName = Name xmlfile, InputFileSize = Size xmlfile,
                       Status = ''failed/notattemptedyet''\<rparr>
           in (XMLFiles @ [new], new)))"

text \<open>\<^verbatim>\<open>ExtraFunc5\<close> of \<^verbatim>\<open>timeliner.go\<close>.\<close>

definition ExtraFunc5 :: "Options \<Rightarrow> Parse_Config_XMLFile \<Rightarrow> bool" where
  "ExtraFunc5 options fileconfig = False"

text \<open>The five counters of \<^verbatim>\<open>GoAuditParser_Start\<close>.\<close>

record counters =
  c_Success :: nat
  c_Cached :: nat
  c_Failed :: nat
  c_Empty :: nat
  c_Issues :: nat

text \<open>
  The loop that removes the files that need no parse, before any worker is started. The
  Go loop deletes \<^verbatim>\<open>files[i]\<close> in place and steps back, so it looks at every file once,
  in order; the files it keeps are the work list.
\<close>

fun remove_parsed :: "Options \<Rightarrow> FileInfo list \<Rightarrow> Parse_Config_XMLFile list \<Rightarrow> counters
    \<Rightarrow> FileInfo list \<times> Parse_Config_XMLFile list \<times> counters" where
  "remove_parsed options [] config counts = ([], config, counts)"
| "remove_parsed options (file # files) config counts =
     (if ForceReparse options \<or> WipeOutput options
      then (let (files', config', counts') = remove_parsed options files config counts
            in (file # files', config', counts'))
      else if HasSuffix (Name file) ''.json''
      then remove_parsed options files config counts
      else
        let (config, fileconfig) = InputConfig_GetXMLParseConfig file config
        in if ExtraFunc5 options fileconfig
           then (let (files', config', counts') = remove_parsed options files config counts
                 in (file # files', config', counts'))
           else if Status fileconfig = ''parsed''
           then remove_parsed options files config (counts\<lparr>c_Cached := c_Cached counts + 1\<rparr>)
           else if Status fileconfig = ''split''
           then remove_parsed options files config (counts\<lparr>c_Cached := c_Cached counts + 1\<rparr>)
           else if Status fileconfig = ''ignored/issues''
           then remove_parsed options files config (counts\<lparr>c_Issues := c_Issues counts + 1\<rparr>)
           else if Status fileconfig = ''ignored/empty''
           then remove_parsed options files config (counts\<lparr>c_Empty := c_Empty counts + 1\<rparr>)
           else (let (files', config', counts') = remove_parsed options files config counts
                 in (file # files', config', counts')))"

text \<open>
  The spec's words: the status the cache holds for a file, and the statuses of a file
  that was processed before.
\<close>

definition cached_status :: "Parse_Config_XMLFile list \<Rightarrow> FileInfo \<Rightarrow> string option" where
  "cached_status config file = map_option Status (find (same_file file) config)"

definition already_processed :: "string option \<Rightarrow> bool" where
  "already_processed s \<longleftrightarrow>
     s \<in> {Some ''parsed'', Some ''split'', Some ''ignored/issues'', Some ''ignored/empty''}"

definition counted_as :: "Parse_Config_XMLFile list \<Rightarrow> string list \<Rightarrow> FileInfo list \<Rightarrow> nat" where
  "counted_as config statuses files =
     length (filter (\<lambda>file. \<not> HasSuffix (Name file) ''.json'' \<and>
                             cached_status config file \<in> Some ` set statuses) files)"

text \<open>The cache after some lookups: what processed files it knows has not changed.\<close>

definition same_processed :: "Parse_Config_XMLFile list \<Rightarrow> Parse_Config_XMLFile list \<Rightarrow> bool" where
  "same_processed c c' \<longleftrightarrow>
     (\<forall>file. already_processed (cached_status c' file) \<or> already_processed (cached_status c file)
        \<longrightarrow> cached_status c' file = cached_status c file)"

text \<open>The files the loop keeps when neither flag is set.\<close>

definition kept :: "Parse_Config_XMLFile list \<Rightarrow> FileInfo \<Rightarrow> bool" where
  "kept config file \<longleftrightarrow>
     \<not> HasSuffix (Name file) ''.json'' \<and> \<not> already_processed (cached_status config file)"

section \<open>The forms of a field in the Normal parser\<close>



section \<open>The outcome of a worker\<close>

text \<open>
  A worker hands back a \<^verbatim>\<open>ThreadReturn_Parse\<close>; the orchestrator reads its message only
  through \<^verbatim>\<open>strings.Contains\<close>.
\<close>

record ThreadReturn_Parse =
  threadnum :: nat
  xmlname :: string
  xmlsize :: int
  message :: string

definition SQ :: char where "SQ = CHR 0x27"

text \<open>The message of the three exits that report an empty file.\<close>

definition empty_message :: "Options \<Rightarrow> string \<Rightarrow> string" where
  "empty_message options xmlFileName =
     Warnbox options @ ''WARNING - File '' @ [SQ] @ xmlFileName @ [SQ] @ '' is empty.''"

text \<open>
  The Normal path once the scan of the file has ended: with no row, the temporary file is
  removed and the worker returns. The disk is the set of the paths that exist;
  \<^verbatim>\<open>os.Remove\<close> of a path that does not exist changes nothing. What follows the test (the
  columns, the rows, the write to the temporary file and its rename to the final CSV file) is
  the parameter \<open>write_csv\<close>.
\<close>

definition normal_after_scan :: "Options \<Rightarrow> nat \<Rightarrow> string \<Rightarrow> int \<Rightarrow> string \<Rightarrow> row_normal list
    \<Rightarrow> (string set \<Rightarrow> string set \<times> ThreadReturn_Parse) \<Rightarrow> string set
    \<Rightarrow> string set \<times> ThreadReturn_Parse" where
  "normal_after_scan options threadNum xmlFileName xmlFileSize csvFilePathTemp rows write_csv disk =
     (if length rows = 0
      then (disk - {csvFilePathTemp},
            \<lparr>threadnum = threadNum, xmlname = xmlFileName, xmlsize = xmlFileSize,
             message = empty_message options xmlFileName\<rparr>)
      else write_csv disk)"

text \<open>
  The event paths once the scan has ended: the test is on the number of tables, that is, of
  event types seen; no file has been created yet.
\<close>

definition events_after_scan :: "Options \<Rightarrow> nat \<Rightarrow> string \<Rightarrow> int \<Rightarrow> RowValue list list list
    \<Rightarrow> (string set \<Rightarrow> string set \<times> ThreadReturn_Parse) \<Rightarrow> string set
    \<Rightarrow> string set \<times> ThreadReturn_Parse" where
  "events_after_scan options threadNum xmlFileName xmlFileSize tbls write_csv disk =
     (if length tbls = 0
      then (disk,
            \<lparr>threadnum = threadNum, xmlname = xmlFileName, xmlsize = xmlFileSize,
             message = empty_message options xmlFileName\<rparr>)
      else write_csv disk)"

text \<open>
  The status \<^verbatim>\<open>ParseConfigUpdateXMLParse\<close> derives from a message: a sequence of
  \<^verbatim>\<open>if\<close> statements, each of which overwrites the status, so the last test that holds
  wins; a message that passes none is itself the status.
\<close>

definition status_of_message :: "string \<Rightarrow> string" where
  "status_of_message msg =
     (let status = msg;
          status = (if Contains msg ''already exists'' then ''parsed'' else status);
          status = (if Contains msg ''parsed successfully'' then ''parsed'' else status);
          status = (if Contains msg ''Issues file'' then ''ignored/issues'' else status);
          status = (if Contains msg ''is empty'' then ''ignored/empty'' else status);
          status = (if Contains msg ''not rename'' then ''failed/rename'' else status);
          status = (if Contains msg ''not parse file'' then ''failed/error'' else status);
          status = (if Contains msg ''does not exist'' then ''failed/notexist'' else status);
          status = (if Contains msg ''File was split'' then ''split'' else status)
      in status)"

fun first_index :: "('a \<Rightarrow> bool) \<Rightarrow> 'a list \<Rightarrow> nat option" where
  "first_index P [] = None"
| "first_index P (x # xs) = (if P x then Some 0 else map_option Suc (first_index P xs))"

text \<open>
  \<^verbatim>\<open>ParseConfigUpdateXMLParse\<close>: the first entry with the name and the size of the file, or a
  new entry at the end of the cache, gets the status of the message. The parameter
  \<^verbatim>\<open>extra\<close> of the Go function is not read.
\<close>

definition ParseConfigUpdateXMLParse :: "FileInfo \<Rightarrow> string \<Rightarrow> Parse_Config_XMLFile list
    \<Rightarrow> Parse_Config_XMLFile list" where
  "ParseConfigUpdateXMLParse xmlfile msg XMLFiles =
     (let (XMLFiles, xmlFileIndex) =
        (case first_index (same_file xmlfile) XMLFiles of
           Some i \<Rightarrow> (XMLFiles, i)
         | None \<Rightarrow>
             (XMLFiles @ [\<lparr>InputFileName = Name xmlfile, InputFileSize = Size xmlfile,
                            Status = []\<rparr>],
              length XMLFiles))
      in XMLFiles[xmlFileIndex := (XMLFiles ! xmlFileIndex)\<lparr>Status := status_of_message msg\<rparr>])"

text \<open>
  The statistics: the \<^verbatim>\<open>if\<close> / \<^verbatim>\<open>else if\<close> chain over the collected messages at the end of
  \<^verbatim>\<open>GoAuditParser_Start\<close>; the first test that holds decides.
\<close>

definition count_message :: "string \<Rightarrow> counters \<Rightarrow> counters" where
  "count_message msg counts =
     (if Contains msg ''parsed successfully'' then counts\<lparr>c_Success := c_Success counts + 1\<rparr>
      else if Contains msg ''Could not rename'' then counts\<lparr>c_Failed := c_Failed counts + 1\<rparr>
      else if Contains msg ''Could not parse file'' then counts\<lparr>c_Failed := c_Failed counts + 1\<rparr>
      else if Contains msg ''already exists'' then counts\<lparr>c_Cached := c_Cached counts + 1\<rparr>
      else if Contains msg ''Issues file'' then counts\<lparr>c_Issues := c_Issues counts + 1\<rparr>
      else if Contains msg ''is empty'' then counts\<lparr>c_Empty := c_Empty counts + 1\<rparr>
      else if Contains msg ''does not exist'' then counts\<lparr>c_Failed := c_Failed counts + 1\<rparr>
      else counts)"

definition count_messages :: "string list \<Rightarrow> counters \<Rightarrow> counters" where
  "count_messages threadMessages counts = foldl (\<lambda>counts msg. count_message msg counts) counts threadMessages"

text \<open>
  What the orchestrator does with the outcome of the worker of a file: the message joins
  \<^verbatim>\<open>threadMessages\<close> and the cache entry of the file gets its status.
\<close>

definition worker_done :: "FileInfo \<Rightarrow> ThreadReturn_Parse \<Rightarrow> string list \<times> Parse_Config_XMLFile list
    \<Rightarrow> string list \<times> Parse_Config_XMLFile list" where
  "worker_done xmlfile done s =
     (fst s @ [message done], ParseConfigUpdateXMLParse xmlfile (message done) (snd s))"

text \<open>
  The phrases of a file name that change what the orchestrator reads in the message of an
  empty file.
\<close>

definition key_phrases :: "string list" where
  "key_phrases = [''not rename'', ''not parse file'', ''does not exist'', ''File was split'',
     ''parsed successfully'', ''already exists'', ''Issues file'']"

definition plain_name :: "string \<Rightarrow> bool" where
  "plain_name xmlFileName \<longleftrightarrow> list_all (\<lambda>p. \<not> Contains xmlFileName p) key_phrases"

text \<open>
  The spec's words for the two patterns, for comparison with the code: a Z-suffixed
  ISO-8601 timestamp, \<^verbatim>\<open>YYYY-MM-DDTHH:MM:SSZ\<close> or \<^verbatim>\<open>YYYY-MM-DDTHH:MM:SS.fffZ\<close>, the
  letters standing for decimal digits.
\<close>

definition is_digit :: "char \<Rightarrow> bool" where
  "is_digit c \<longleftrightarrow> c \<in> set ''0123456789''"

definition digits_at :: "string \<Rightarrow> nat list \<Rightarrow> bool" where
  "digits_at s ps \<longleftrightarrow> list_all (\<lambda>i. is_digit (s ! i)) ps"

definition iso8601_seconds_Z :: "string \<Rightarrow> bool" where
  "iso8601_seconds_Z s \<longleftrightarrow>
     length s = 20 \<and> digits_at s [0, 1, 2, 3, 5, 6, 8, 9, 11, 12, 14, 15, 17, 18] \<and>
     s ! 4 = CHR ''-'' \<and> s ! 7 = CHR ''-'' \<and> s ! 10 = CHR ''T'' \<and>
     s ! 13 = CHR '':'' \<and> s ! 16 = CHR '':'' \<and> s ! 19 = CHR ''Z''"

definition iso8601_millis_Z :: "string \<Rightarrow> bool" where
  "iso8601_millis_Z s \<longleftrightarrow>
     length s = 24 \<and>
     digits_at s [0, 1, 2, 3, 5, 6, 8, 9, 11, 12, 14, 15, 17, 18, 20, 21, 22] \<and>
     s ! 4 = CHR ''-'' \<and> s ! 7 = CHR ''-'' \<and> s ! 10 = CHR ''T'' \<and>
     s ! 13 = CHR '':'' \<and> s ! 16 = CHR '':'' \<and> s ! 19 = CHR ''.'' \<and> s ! 23 = CHR ''Z''"

section \<open>Properties of the timestamp normalizer\<close>

lemma andalso_Inr: "andalso (Inr p) b = (if p then b else Inr False)"
  by (simp add: andalso_def)

lemma byte_is_eq:
  "byte_is s i c = (if i < length s then Inr (s ! i = c) else Inl IndexOutOfRange)"
  by (simp add: byte_is_def index_byte_def)

lemma is_time_millis_eq: "is_time_millis s = Inr (millis_shape s)"
proof (cases "length s = 23 \<or> length s = 24")
  case True
  then have "4 < length s" "7 < length s" "13 < length s" "16 < length s" "19 < length s"
    by auto
  then show ?thesis
    using True by (simp add: is_time_millis_def millis_shape_def andalso_Inr byte_is_eq)
next
  case False
  then show ?thesis
    by (simp add: is_time_millis_def millis_shape_def andalso_Inr)
qed

lemma is_time_seconds_eq: "is_time_seconds s = Inr (seconds_shape s)"
proof (cases "length s = 19 \<or> length s = 20")
  case True
  then have "4 < length s" "7 < length s" "13 < length s" "16 < length s"
    by auto
  then show ?thesis
    using True by (simp add: is_time_seconds_def seconds_shape_def andalso_Inr byte_is_eq)
next
  case False
  then show ?thesis
    by (simp add: is_time_seconds_def seconds_shape_def andalso_Inr)
qed

lemma parse_time_eq:
  "parse_time s =
     Inr (if millis_shape s then take 10 s @ '' '' @ take 12 (drop 11 s)
          else if seconds_shape s then take 10 s @ '' '' @ take 8 (drop 11 s)
          else s)"
  by (auto simp: parse_time_def is_time_millis_eq is_time_seconds_eq join_space_def
      slice_str_def millis_shape_def seconds_shape_def)

text \<open>
  C9. \<^verbatim>\<open>parse_time\<close> returns a string for every input: no index and no slice of it is
  ever out of range, because each one stands behind the length test of its condition.
\<close>

theorem parse_time_never_panics: "\<exists>r. parse_time s = Inr r"
  by (simp add: parse_time_eq)

lemma iso8601_millis_shape: "iso8601_millis_Z s \<Longrightarrow> millis_shape s"
  by (simp add: iso8601_millis_Z_def millis_shape_def)

lemma iso8601_seconds_shape: "iso8601_seconds_Z s \<Longrightarrow> seconds_shape s"
  by (simp add: iso8601_seconds_Z_def seconds_shape_def)

lemma shapes_exclusive: "millis_shape s \<Longrightarrow> \<not> seconds_shape s"
  by (auto simp: millis_shape_def seconds_shape_def)

lemma parse_time_seconds_parts:
  assumes "length y = 4" "length m = 2" "length d = 2" "length t = 1"
    and "length hh = 2" "length mi = 2" "length ss = 2" "length z \<le> 1"
  shows "parse_time (y @ ''-'' @ m @ ''-'' @ d @ t @ hh @ '':'' @ mi @ '':'' @ ss @ z) =
    Inr (y @ ''-'' @ m @ ''-'' @ d @ '' '' @ hh @ '':'' @ mi @ '':'' @ ss)"
proof -
  let ?s = "y @ ''-'' @ m @ ''-'' @ d @ t @ hh @ '':'' @ mi @ '':'' @ ss @ z"
  have len: "length ?s = 19 \<or> length ?s = 20"
    using assms by (cases z) auto
  have sep: "?s ! 4 = CHR ''-''" "?s ! 7 = CHR ''-''" "?s ! 13 = CHR '':''" "?s ! 16 = CHR '':''"
    using assms by (simp_all add: nth_append)
  have sh: "seconds_shape ?s" "\<not> millis_shape ?s"
    using len sep by (auto simp: seconds_shape_def millis_shape_def)
  have "take 10 ?s = y @ ''-'' @ m @ ''-'' @ d"
    using assms by simp
  moreover have "take 8 (drop 11 ?s) = hh @ '':'' @ mi @ '':'' @ ss"
    using assms by simp
  ultimately show ?thesis
    using sh by (simp only: parse_time_eq if_True if_False append_assoc)
qed

lemma parse_time_millis_parts:
  assumes "length y = 4" "length m = 2" "length d = 2" "length t = 1"
    and "length hh = 2" "length mi = 2" "length ss = 2" "length f = 3" "length z \<le> 1"
  shows "parse_time (y @ ''-'' @ m @ ''-'' @ d @ t @ hh @ '':'' @ mi @ '':'' @ ss @ ''.'' @ f @ z) =
    Inr (y @ ''-'' @ m @ ''-'' @ d @ '' '' @ hh @ '':'' @ mi @ '':'' @ ss @ ''.'' @ f)"
proof -
  let ?s = "y @ ''-'' @ m @ ''-'' @ d @ t @ hh @ '':'' @ mi @ '':'' @ ss @ ''.'' @ f @ z"
  have len: "length ?s = 23 \<or> length ?s = 24"
    using assms by (cases z) auto
  have sep: "?s ! 4 = CHR ''-''" "?s ! 7 = CHR ''-''" "?s ! 13 = CHR '':''" "?s ! 16 = CHR '':''"
    "?s ! 19 = CHR ''.''"
    using assms by (simp_all add: nth_append)
  have sh: "millis_shape ?s"
    using len sep by (auto simp: millis_shape_def)
  have "take 10 ?s = y @ ''-'' @ m @ ''-'' @ d"
    using assms by simp
  moreover have "take 12 (drop 11 ?s) = hh @ '':'' @ mi @ '':'' @ ss @ ''.'' @ f"
    using assms by simp
  ultimately show ?thesis
    using sh by (simp only: parse_time_eq if_True if_False append_assoc)
qed

text \<open>
  C3, as the code has it. The normalizer looks at the length and at the separator bytes
  only. A string of length 23 or 24 with \<^verbatim>\<open>-\<close> at offsets 4 and 7, \<^verbatim>\<open>:\<close> at 13 and 16
  and \<^verbatim>\<open>.\<close> at 19 becomes its first ten bytes, a space and bytes 11 to 22; a string of
  length 19 or 20 with the first four separators becomes its first ten bytes, a space
  and bytes 11 to 18; every other string is returned unchanged. Hence a Z-suffixed
  ISO-8601 timestamp, with or without milliseconds, comes out as
  \<^verbatim>\<open>YYYY-MM-DD HH:MM:SS[.fff]\<close>: the byte at offset 10 is replaced by a space and the
  trailing byte is dropped.
\<close>

theorem parse_time_rewrites_by_shape:
  "(millis_shape s \<longrightarrow> parse_time s = Inr (take 10 s @ '' '' @ take 12 (drop 11 s))) \<and>
   (seconds_shape s \<longrightarrow> parse_time s = Inr (take 10 s @ '' '' @ take 8 (drop 11 s))) \<and>
   (\<not> millis_shape s \<and> \<not> seconds_shape s \<longrightarrow> parse_time s = Inr s) \<and>
   (iso8601_millis_Z s \<longrightarrow>
      parse_time s = Inr (take 10 s @ '' '' @ take 12 (drop 11 s)) \<and>
      (\<exists>r. parse_time s = Inr r \<and> length r = 23 \<and> r ! 10 = CHR '' '' \<and>
         take 10 r = take 10 s \<and> drop 11 r = take 12 (drop 11 s))) \<and>
   (iso8601_seconds_Z s \<longrightarrow>
      parse_time s = Inr (take 10 s @ '' '' @ take 8 (drop 11 s)) \<and>
      (\<exists>r. parse_time s = Inr r \<and> length r = 19 \<and> r ! 10 = CHR '' '' \<and>
         take 10 r = take 10 s \<and> drop 11 r = take 8 (drop 11 s)))"
proof -
  have m: "parse_time s = Inr (take 10 s @ '' '' @ take 12 (drop 11 s))" if "millis_shape s"
    using that by (simp add: parse_time_eq)
  have n: "parse_time s = Inr (take 10 s @ '' '' @ take 8 (drop 11 s))" if "seconds_shape s"
    using that shapes_exclusive [of s] by (auto simp: parse_time_eq)
  have o: "parse_time s = Inr s" if "\<not> millis_shape s" "\<not> seconds_shape s"
    using that by (simp add: parse_time_eq)
  have im: "length (take 10 s @ '' '' @ take 12 (drop 11 s)) = 23 \<and>
      (take 10 s @ '' '' @ take 12 (drop 11 s)) ! 10 = CHR '' '' \<and>
      take 10 (take 10 s @ '' '' @ take 12 (drop 11 s)) = take 10 s \<and>
      drop 11 (take 10 s @ '' '' @ take 12 (drop 11 s)) = take 12 (drop 11 s)"
    if "iso8601_millis_Z s"
    using that by (simp add: iso8601_millis_Z_def nth_append)
  have isec: "length (take 10 s @ '' '' @ take 8 (drop 11 s)) = 19 \<and>
      (take 10 s @ '' '' @ take 8 (drop 11 s)) ! 10 = CHR '' '' \<and>
      take 10 (take 10 s @ '' '' @ take 8 (drop 11 s)) = take 10 s \<and>
      drop 11 (take 10 s @ '' '' @ take 8 (drop 11 s)) = take 8 (drop 11 s)"
    if "iso8601_seconds_Z s"
    using that by (simp add: iso8601_seconds_Z_def nth_append)
  show ?thesis
    using m n o im isec iso8601_millis_shape [of s] iso8601_seconds_shape [of s] by blast
qed

theorem parse_time_rewrites_by_shape_witness:
  "iso8601_millis_Z ''2019-12-19T11:11:45.299Z'' \<and>
   parse_time ''2019-12-19T11:11:45.299Z'' = Inr ''2019-12-19 11:11:45.299'' \<and>
   iso8601_seconds_Z ''2019-12-19T11:11:45Z'' \<and>
   parse_time ''2019-12-19T11:11:45Z'' = Inr ''2019-12-19 11:11:45'' \<and>
   \<not> millis_shape ''2019-12-19'' \<and> \<not> seconds_shape ''2019-12-19'' \<and>
   parse_time ''2019-12-19'' = Inr ''2019-12-19''"
proof -
  have a: "iso8601_millis_Z ''2019-12-19T11:11:45.299Z''"
    by (simp add: iso8601_millis_Z_def digits_at_def is_digit_def)
  have b: "iso8601_seconds_Z ''2019-12-19T11:11:45Z''"
    by (simp add: iso8601_seconds_Z_def digits_at_def is_digit_def)
  have c: "\<not> millis_shape ''2019-12-19''" "\<not> seconds_shape ''2019-12-19''"
    by (simp_all add: millis_shape_def seconds_shape_def)
  show ?thesis
    using a b c parse_time_rewrites_by_shape [of "''2019-12-19T11:11:45.299Z''"]
      parse_time_rewrites_by_shape [of "''2019-12-19T11:11:45Z''"]
      parse_time_rewrites_by_shape [of "''2019-12-19''"]
    by simp
qed

text \<open>
  The claim as the spec words it fails in its last part: a string that is no timestamp
  at all is rewritten when its separators happen to stand at the inspected offsets. Here
  the byte at offset 10 is lost to a space and the last byte is dropped.
\<close>

theorem parse_time_changes_a_non_timestamp:
  "\<not> iso8601_millis_Z ''ABCD-EF-GHIJK:LM:NOP'' \<and>
   \<not> iso8601_seconds_Z ''ABCD-EF-GHIJK:LM:NOP'' \<and>
   parse_time ''ABCD-EF-GHIJK:LM:NOP'' = Inr ''ABCD-EF-GH JK:LM:NO''"
  by (simp add: parse_time_eq iso8601_millis_Z_def iso8601_seconds_Z_def digits_at_def
      is_digit_def millis_shape_def seconds_shape_def)

section \<open>Properties of the header table and the rows\<close>

lemma update_absent: "map_of al k = None \<Longrightarrow> AList.update k v al = al @ [(k, v)]"
  by (induction al) auto

lemma header_colID_cases:
  "header_colID h hs = (c, hs') \<Longrightarrow>
     (map_of hs h = Some c \<and> hs' = hs) \<or>
     (map_of hs h = None \<and> c = length hs \<and> hs' = hs @ [(h, length hs)])"
  by (auto simp: header_colID_def update_absent split: option.splits)

lemma headers_ok_append:
  "headers_ok hs \<Longrightarrow> map_of hs h = None \<Longrightarrow> headers_ok (hs @ [(h, length hs)])"
  by (auto simp: headers_ok_def map_of_eq_None_iff)

lemma headers_ok_id_less:
  assumes "headers_ok hs" "map_of hs h = Some c"
  shows "c < length hs"
proof -
  have "c \<in> set (map snd hs)"
    using assms(2) by (metis map_of_SomeD set_zip_rightD zip_map_fst_snd)
  moreover have "map snd hs = [0..<length hs]"
    using assms(1) by (simp add: headers_ok_def)
  ultimately have "c \<in> set [0..<length hs]" by metis
  then show ?thesis by simp
qed

lemma headers_ok_unique_name:
  assumes "headers_ok hs" "c < length hs"
  shows "\<exists>!h. map_of hs h = Some c"
proof -
  have d: "distinct (map fst hs)" and s: "map snd hs = [0..<length hs]"
    using assms(1) by (simp_all add: headers_ok_def)
  have "snd (hs ! c) = c"
    using s assms(2) by (metis nth_map nth_upt add_0 length_map)
  then have "(fst (hs ! c), c) \<in> set hs"
    using assms(2) by (metis nth_mem prod.collapse)
  then have ex: "map_of hs (fst (hs ! c)) = Some c"
    using d by simp
  have "h = h'" if "map_of hs h = Some c" "map_of hs h' = Some c" for h h'
  proof -
    from that have a: "(h, c) \<in> set hs" "(h', c) \<in> set hs"
      by (auto dest: map_of_SomeD)
    have ds: "distinct (map snd hs)" using s by simp
    from a obtain i j where ij: "i < length hs" "hs ! i = (h, c)" "j < length hs" "hs ! j = (h', c)"
      by (metis in_set_conv_nth)
    then have "map snd hs ! i = map snd hs ! j" by simp
    then have "i = j" using ds ij by (metis length_map nth_eq_iff_index_eq)
    then show ?thesis using ij by simp
  qed
  then show ?thesis using ex by blast
qed

lemma map_of_append_new: "map_of hs h = None \<Longrightarrow> map_of (hs @ [(h, c)]) h = Some c"
  by (simp add: map_add_def)

lemma header_colID_ok:
  assumes "headers_ok hs" "header_colID h hs = (c, hs')"
  shows "headers_ok hs'" "map_of hs' h = Some c" "c < length hs'" "prefix hs hs'"
proof -
  consider (old) "map_of hs h = Some c" "hs' = hs"
    | (new) "map_of hs h = None" "c = length hs" "hs' = hs @ [(h, length hs)]"
    using header_colID_cases [OF assms(2)] by (elim disjE conjE)
  then have "headers_ok hs' \<and> map_of hs' h = Some c \<and> c < length hs' \<and> prefix hs hs'"
  proof cases
    case old
    then show ?thesis using assms(1) headers_ok_id_less by auto
  next
    case new
    then show ?thesis
      using assms(1) headers_ok_append map_of_append_new by auto
  qed
  then show "headers_ok hs'" "map_of hs' h = Some c" "c < length hs'" "prefix hs hs'"
    by blast+
qed

lemma prefix_map_of:
  "prefix hs hs' \<Longrightarrow> map_of hs h = Some c \<Longrightarrow> map_of hs' h = Some c"
  by (auto simp: prefix_def map_add_def)

lemma add_value_to_row_normal_included:
  assumes "parse_time v = Inr t" "header_colID (path_header path header) hs = (c, hs')"
  shows "add_value_to_row_normal header v path hs row options nl True =
     Inr (hs', AList.update c
           (case map_of row c of
              Some old \<Rightarrow> old @ with_separator options nl (replace_newlines options t)
            | None \<Rightarrow> replace_newlines options t) row)"
  using assms by (simp add: add_value_to_row_normal_def path_header_def Let_def split: option.splits)

lemma add_value_to_row_normal_excluded:
  "add_value_to_row_normal header v path hs row options nl False = Inr (hs, row)"
  by (simp add: add_value_to_row_normal_def)


lemma ids_update: "ids_normal (AList.update c x row) = insert c (ids_normal row)"
  by (simp add: ids_normal_def AList.dom_update)

lemma add_value_to_row_normal_step:
  assumes "headers_ok hs"
  shows "\<exists>hs' row'. add_value_to_row_normal header v path hs row options nl incl = Inr (hs', row') \<and>
     headers_ok hs' \<and> prefix hs hs' \<and>
     (\<forall>c \<in> ids_normal row'. c \<in> ids_normal row \<or> c < length hs')"
proof (cases incl)
  case False
  then show ?thesis using assms by (simp add: add_value_to_row_normal_excluded)
next
  case True
  obtain t where t: "parse_time v = Inr t" using parse_time_never_panics by blast
  obtain c hs' where c: "header_colID (path_header path header) hs = (c, hs')"
    by (cases "header_colID (path_header path header) hs")
  show ?thesis
    using True add_value_to_row_normal_included [OF t c] header_colID_ok [OF assms c]
    by (auto simp: ids_update)
qed

lemma prefix_length_le: "prefix (xs :: 'a list) ys \<Longrightarrow> length xs \<le> length ys"
  by (auto simp: prefix_def)

lemma record_normal_run:
  assumes "headers_ok hs" "\<forall>c \<in> ids_normal row. c < length hs"
  shows "\<exists>hs' row'. record_normal options cs hs row = Inr (hs', row') \<and>
     headers_ok hs' \<and> prefix hs hs' \<and> (\<forall>c \<in> ids_normal row'. c < length hs')"
  using assms
proof (induction cs arbitrary: hs row)
  case Nil
  then show ?case by simp
next
  case (Cons c cs)
  obtain hs1 row1 where s: "add_value_to_row_normal (c_header c) (c_value c) (c_headerPathParts c) hs row
      options (c_existingGetsNewLine c) (c_include_value c) = Inr (hs1, row1)"
    "headers_ok hs1" "prefix hs hs1" "\<forall>c \<in> ids_normal row1. c \<in> ids_normal row \<or> c < length hs1"
    using add_value_to_row_normal_step [OF Cons.prems(1)] by blast
  have le: "length hs \<le> length hs1"
    using s(3) by (rule prefix_length_le)
  have "\<forall>c \<in> ids_normal row1. c < length hs1"
  proof
    fix c assume "c \<in> ids_normal row1"
    then consider "c \<in> ids_normal row" | "c < length hs1" using s(4) by blast
    then show "c < length hs1"
    proof cases
      case 1
      then have "c < length hs" using Cons.prems(2) by blast
      then show ?thesis using le by simp
    qed simp
  qed
  from Cons.IH [OF s(2) this] obtain hs' row' where
    r: "record_normal options cs hs1 row1 = Inr (hs', row')" "headers_ok hs'" "prefix hs1 hs'"
      "\<forall>c \<in> ids_normal row'. c < length hs'"
    by blast
  have "prefix hs hs'" using s(3) r(3) by auto
  then show ?case using s(1) r by simp
qed

lemma records_normal_run:
  assumes "headers_ok hs" "\<forall>row \<in> set rows. \<forall>c \<in> ids_normal row. c < length hs"
  shows "\<exists>hs' rows'. records_normal options recs hs rows = Inr (hs', rows') \<and>
     headers_ok hs' \<and> prefix hs hs' \<and> (\<forall>row \<in> set rows'. \<forall>c \<in> ids_normal row. c < length hs')"
  using assms
proof (induction recs arbitrary: hs rows)
  case Nil
  then show ?case by simp
next
  case (Cons r rs)
  have e: "\<forall>c \<in> ids_normal []. c < length hs" by (simp add: ids_normal_def)
  obtain hs1 row where s: "record_normal options r hs [] = Inr (hs1, row)" "headers_ok hs1"
    "prefix hs hs1" "\<forall>c \<in> ids_normal row. c < length hs1"
    using record_normal_run [OF Cons.prems(1) e] by blast
  let ?rows = "if row \<noteq> [] then rows @ [row] else rows"
  have le: "length hs \<le> length hs1"
    using s(3) by (rule prefix_length_le)
  have old: "\<forall>r \<in> set rows. \<forall>c \<in> ids_normal r. c < length hs1"
  proof (intro ballI)
    fix r c assume "r \<in> set rows" "c \<in> ids_normal r"
    then have "c < length hs" using Cons.prems(2) by blast
    then show "c < length hs1" using le by simp
  qed
  have "\<forall>row \<in> set ?rows. \<forall>c \<in> ids_normal row. c < length hs1"
    using old s(4) by simp
  from Cons.IH [OF s(2) this] obtain hs' rows' where
    r: "records_normal options rs hs1 ?rows = Inr (hs', rows')" "headers_ok hs'" "prefix hs1 hs'"
      "\<forall>row \<in> set rows'. \<forall>c \<in> ids_normal row. c < length hs'"
    by blast
  have "prefix hs hs'" using s(3) r(3) by auto
  then show ?case using s(1) r by simp
qed

lemma append_to_cell_ids:
  "map colid (fst (append_to_cell c options nl v row)) = map colid row"
  by (induction row) (auto split: prod.splits)

lemma append_to_cell_found:
  "snd (append_to_cell c options nl v row) \<longleftrightarrow> c \<in> ids_event row"
  by (induction row) (auto simp: ids_event_def split: prod.splits)

lemma fst_append_to_cell_Cons:
  "fst (append_to_cell c options nl v (rv # rest)) =
     (if colid rv = c then rv\<lparr>cell := cell rv @ with_separator options nl v\<rparr> # rest
      else rv # fst (append_to_cell c options nl v rest))"
  by (simp split: prod.splits)

lemma append_to_cell_first:
  assumes "c \<in> ids_event row"
  shows "\<exists>i < length row. colid (row ! i) = c \<and> (\<forall>j < i. colid (row ! j) \<noteq> c) \<and>
     fst (append_to_cell c options nl v row) =
       row[i := (row ! i)\<lparr>cell := cell (row ! i) @ with_separator options nl v\<rparr>]"
  using assms
proof (induction row)
  case Nil
  then show ?case by (simp add: ids_event_def)
next
  case (Cons rv rest)
  show ?case
  proof (cases "colid rv = c")
    case True
    then have "0 < length (rv # rest) \<and> colid ((rv # rest) ! 0) = c \<and>
      (\<forall>j < 0. colid ((rv # rest) ! j) \<noteq> c) \<and>
      fst (append_to_cell c options nl v (rv # rest)) =
       (rv # rest)[0 := ((rv # rest) ! 0)\<lparr>cell := cell ((rv # rest) ! 0) @ with_separator options nl v\<rparr>]"
      by simp
    then show ?thesis by blast
  next
    case False
    then have "c \<in> ids_event rest" using Cons.prems by (simp add: ids_event_def)
    from Cons.IH [OF this] obtain i where i: "i < length rest" "colid (rest ! i) = c"
      "\<forall>j < i. colid (rest ! j) \<noteq> c"
      "fst (append_to_cell c options nl v rest) =
         rest[i := (rest ! i)\<lparr>cell := cell (rest ! i) @ with_separator options nl v\<rparr>]"
      by blast
    have "\<forall>j < Suc i. colid ((rv # rest) ! j) \<noteq> c"
    proof (intro allI impI)
      fix j assume "j < Suc i"
      then show "colid ((rv # rest) ! j) \<noteq> c"
        using False i(3) by (cases j) auto
    qed
    moreover have "fst (append_to_cell c options nl v (rv # rest)) =
       (rv # rest)[Suc i := ((rv # rest) ! Suc i)\<lparr>cell := cell ((rv # rest) ! Suc i) @ with_separator options nl v\<rparr>]"
      using False i(4) by (simp only: fst_append_to_cell_Cons if_False nth_Cons_Suc list_update_code)
    ultimately have "Suc i < length (rv # rest) \<and> colid ((rv # rest) ! Suc i) = c \<and>
      (\<forall>j < Suc i. colid ((rv # rest) ! j) \<noteq> c) \<and>
      fst (append_to_cell c options nl v (rv # rest)) =
       (rv # rest)[Suc i := ((rv # rest) ! Suc i)\<lparr>cell := cell ((rv # rest) ! Suc i) @ with_separator options nl v\<rparr>]"
      using i(1,2) by simp
    then show ?thesis by blast
  qed
qed

lemma add_value_to_row_eventbuffer_eq:
  assumes "parse_time v = Inr t" "header_colID header hs = (c, hs')"
  shows "add_value_to_row_eventbuffer header v hs row options nl =
     Inr (hs', if c \<in> ids_event row
               then fst (append_to_cell c options nl (replace_newlines options t) row)
               else row @ [\<lparr>colid = c, cell = replace_newlines options t\<rparr>])"
proof -
  obtain row' found where a: "append_to_cell c options nl (replace_newlines options t) row = (row', found)"
    by (cases "append_to_cell c options nl (replace_newlines options t) row")
  then have "found \<longleftrightarrow> c \<in> ids_event row"
    using append_to_cell_found [of c options nl "replace_newlines options t" row] by simp
  then show ?thesis
    using assms a by (simp add: add_value_to_row_eventbuffer_def Let_def)
qed

lemma ids_event_append_to_cell:
  "ids_event (fst (append_to_cell c options nl v row)) = ids_event row"
proof -
  have "set (map colid (fst (append_to_cell c options nl v row))) = set (map colid row)"
    by (simp only: append_to_cell_ids)
  then show ?thesis by (simp add: ids_event_def)
qed

lemma add_value_to_row_eventbuffer_step:
  assumes "headers_ok hs"
  shows "\<exists>c hs' row'. add_value_to_row_eventbuffer header v hs row options nl = Inr (hs', row') \<and>
     headers_ok hs' \<and> prefix hs hs' \<and> map_of hs' header = Some c \<and> c < length hs' \<and>
     ids_event row' = insert c (ids_event row)"
proof -
  obtain t where t: "parse_time v = Inr t" using parse_time_never_panics by blast
  obtain c hs' where c: "header_colID header hs = (c, hs')"
    by (cases "header_colID header hs")
  have "ids_event (if c \<in> ids_event row
               then fst (append_to_cell c options nl (replace_newlines options t) row)
               else row @ [\<lparr>colid = c, cell = replace_newlines options t\<rparr>]) = insert c (ids_event row)"
    by (auto simp: ids_event_append_to_cell) (auto simp: ids_event_def)
  then show ?thesis
    using add_value_to_row_eventbuffer_eq [OF t c] header_colID_ok [OF assms c]
    by auto
qed

lemma upper_of_lower_H:
  "map_of (zip lower_letters upper_letters) c = Some CHR ''H'' \<Longrightarrow> c = CHR ''h''"
proof -
  assume "map_of (zip lower_letters upper_letters) c = Some CHR ''H''"
  then have "(c, CHR ''H'') \<in> set (zip lower_letters upper_letters)"
    by (rule map_of_SomeD)
  then show ?thesis by (simp add: lower_letters_def upper_letters_def)
qed

lemma ToUpper1_H:
  assumes "ToUpper1 c = ''H''"
  shows "c = CHR ''h'' \<or> c = CHR ''H''"
proof (cases "map_of (zip lower_letters upper_letters) c")
  case None
  then show ?thesis using assms by (simp add: ToUpper1_def split: if_splits)
next
  case (Some u)
  then have "u = CHR ''H''" using assms by (simp add: ToUpper1_def)
  then show ?thesis using Some upper_of_lower_H by blast
qed

lemma length_ToUpper1: "length (ToUpper1 c) = 1 \<or> ToUpper1 c = [CHR 0xEF, CHR 0xBF, CHR 0xBD]"
  by (cases "map_of (zip lower_letters upper_letters) c") (simp_all add: ToUpper1_def)

lemma UpperCamelCase_Hostname:
  "UpperCamelCase s = ''Hostname'' \<longleftrightarrow> s = ''hostname'' \<or> s = ''Hostname''"
proof
  assume a: "UpperCamelCase s = ''Hostname''"
  then obtain c cs where s: "s = c # cs" by (cases s) (auto simp: UpperCamelCase_def)
  from a s have e: "ToUpper1 c @ cs = ''Hostname''" by (simp add: UpperCamelCase_def)
  from length_ToUpper1 [of c] show "s = ''hostname'' \<or> s = ''Hostname''"
  proof
    assume "length (ToUpper1 c) = 1"
    then obtain u where u: "ToUpper1 c = [u]" by (cases "ToUpper1 c") auto
    with e have "u = CHR ''H''" "cs = ''ostname''" by simp_all
    then show ?thesis using u ToUpper1_H [of c] s by auto
  next
    assume "ToUpper1 c = [CHR 0xEF, CHR 0xBF, CHR 0xBD]"
    with e show ?thesis by simp
  qed
next
  assume "s = ''hostname'' \<or> s = ''Hostname''"
  then show "UpperCamelCase s = ''Hostname''"
    by (auto simp: UpperCamelCase_def ToUpper1_def lower_letters_def upper_letters_def)
qed

lemma header_of_not_Hostname: "header_of options eventType src \<noteq> ''Hostname''"
  by (cases src) (simp_all add: ExtraFunc7_def field_header_def detail_header_def Let_def)

lemma field_header_hostname: "field_header eventType ''hostname'' = ''DNSHostname''"
  by (simp add: field_header_def Let_def UpperCamelCase_def ToUpper1_def lower_letters_def
      upper_letters_def)

lemma detail_header_hostname: "detail_header ''hostname'' = ''DNSHostname''"
  by (simp add: detail_header_def Let_def UpperCamelCase_def ToUpper1_def lower_letters_def
      upper_letters_def)

lemma seeded_Hostname:
  assumes "prefix seeded_headers hs"
  shows "map_of hs ''Hostname'' = Some 0" "map_of hs ''AgentID'' = Some 1" "2 \<le> length hs"
proof -
  have a: "map_of seeded_headers ''Hostname'' = Some 0"
    by (simp add: seeded_headers_def)
  have b: "map_of seeded_headers ''AgentID'' = Some 1"
    by (simp add: seeded_headers_def)
  show "map_of hs ''Hostname'' = Some 0"
    using assms a by (rule prefix_map_of)
  show "map_of hs ''AgentID'' = Some 1"
    using assms b by (rule prefix_map_of)
  have "length seeded_headers = 2"
    by (simp add: seeded_headers_def)
  then show "2 \<le> length hs"
    using prefix_length_le [OF assms] by simp
qed

lemma headers_ok_same_id:
  assumes "headers_ok hs" "map_of hs h = Some c" "map_of hs h' = Some c"
  shows "h = h'"
proof -
  have "c < length hs" using assms(1,2) by (rule headers_ok_id_less)
  then have "\<exists>!x. map_of hs x = Some c" using assms(1) headers_ok_unique_name by simp
  then show ?thesis using assms(2,3) by (metis (no_types))
qed

lemma seeded_id_not_0:
  assumes "headers_ok hs" "prefix seeded_headers hs" "map_of hs h = Some c" "h \<noteq> ''Hostname''"
  shows "c \<noteq> 0"
proof
  assume "c = 0"
  then have a: "map_of hs h = Some 0" using assms(3) by simp
  have b: "map_of hs ''Hostname'' = Some 0"
    using assms(2) by (rule seeded_Hostname(1))
  have "h = ''Hostname''" using assms(1) a b by (rule headers_ok_same_id)
  then show False using assms(4) by simp
qed


lemma record_event_run:
  assumes "headers_ok hs" "prefix seeded_headers hs"
    "\<forall>c \<in> ids_event row. c < length hs \<and> c \<noteq> 0"
  shows "\<exists>hs' row'. record_event options eventType cs hs row = Inr (hs', row') \<and>
     headers_ok hs' \<and> prefix hs hs' \<and> (\<forall>c \<in> ids_event row'. c < length hs' \<and> c \<noteq> 0)"
  using assms
proof (induction cs arbitrary: hs row)
  case Nil
  then show ?case by simp
next
  case (Cons c cs)
  let ?h = "header_of options eventType (e_source c)"
  obtain k hs1 row1 where s:
    "add_value_to_row_eventbuffer ?h (e_value c) hs row options (e_existingValueGetsNewLine c) =
       Inr (hs1, row1)"
    "headers_ok hs1" "prefix hs hs1" "map_of hs1 ?h = Some k" "k < length hs1"
    "ids_event row1 = insert k (ids_event row)"
    using add_value_to_row_eventbuffer_step [OF Cons.prems(1)] by blast
  have le: "length hs \<le> length hs1"
    using s(3) by (rule prefix_length_le)
  have seeded: "prefix seeded_headers hs1"
    using Cons.prems(2) s(3) by auto
  have k0: "k \<noteq> 0"
    using seeded_id_not_0 [OF s(2) seeded s(4) header_of_not_Hostname] .
  have "\<forall>c \<in> ids_event row1. c < length hs1 \<and> c \<noteq> 0"
  proof
    fix x assume "x \<in> ids_event row1"
    then consider "x = k" | "x \<in> ids_event row" using s(6) by auto
    then show "x < length hs1 \<and> x \<noteq> 0"
    proof cases
      case 1
      then show ?thesis using s(5) k0 by simp
    next
      case 2
      then have "x < length hs \<and> x \<noteq> 0" using Cons.prems(3) by blast
      then show ?thesis using le by simp
    qed
  qed
  from Cons.IH [OF s(2) seeded this] obtain hs' row' where
    r: "record_event options eventType cs hs1 row1 = Inr (hs', row')" "headers_ok hs'"
      "prefix hs1 hs'" "\<forall>c \<in> ids_event row'. c < length hs' \<and> c \<noteq> 0"
    by blast
  have "prefix hs hs'" using s(3) r(3) by auto
  then show ?case using s(1) r by simp
qed

lemma headers_ok_empty: "headers_ok []"
  by (simp add: headers_ok_def)

lemma headers_ok_seeded: "headers_ok seeded_headers"
  by (simp add: headers_ok_def seeded_headers_def)

lemma set_header_at_last:
  "n = length hs \<Longrightarrow> set_header_at n h c (hs @ [x]) = Inr (hs @ [AList.update h c x])"
  by (simp add: set_header_at_def)

lemma event_type_id_new:
  assumes "map_of (eventTypes st) eventType = None" "length (allHeaders st) = length (eventTypes st)"
  shows "event_type_id eventType st =
     Inr (length (eventTypes st),
          st\<lparr>eventTypes := eventTypes st @ [(eventType, length (eventTypes st))],
             tables := tables st @ [[]],
             allHeaders := allHeaders st @ [seeded_headers]\<rparr>)"
proof -
  have n: "length (eventTypes st) = length (allHeaders st)"
    using assms(2) by simp
  have u: "AList.update eventType (length (eventTypes st)) (eventTypes st) =
      eventTypes st @ [(eventType, length (eventTypes st))]"
    using assms(1) by (rule update_absent)
  show ?thesis
    by (simp add: event_type_id_def Let_def assms(1) set_header_at_last [OF n] u
        seeded_headers_def)
qed

lemma event_type_id_old:
  assumes "map_of (eventTypes st) eventType = Some i"
  shows "event_type_id eventType st = Inr (i, st)"
  using assms by (simp add: event_type_id_def)

lemma tables_ok_nth:
  assumes "tables_ok st" "i < length (allHeaders st)"
  shows "headers_ok (allHeaders st ! i)" "prefix seeded_headers (allHeaders st ! i)"
    "\<forall>row \<in> set (tables st ! i). \<forall>c \<in> ids_event row. c < length (allHeaders st ! i) \<and> c \<noteq> 0"
  using assms by (simp_all add: tables_ok_def)

lemma tables_ok_lengths:
  assumes "tables_ok st"
  shows "length (allHeaders st) = length (eventTypes st)" "length (tables st) = length (eventTypes st)"
    "headers_ok (eventTypes st)"
  using assms by (simp_all add: tables_ok_def)

lemma with_separator_True: "with_separator options True x = separator options @ x"
  by (simp add: with_separator_def separator_def)

lemma header_colID_again:
  assumes "header_colID h hs = (c, hs')"
  shows "header_colID h hs' = (c, hs')"
proof -
  have "map_of hs' h = Some c"
    using header_colID_cases [OF assms] by (auto simp: map_add_def)
  then show ?thesis by (simp add: header_colID_def)
qed

lemma normal_field_repeated:
  assumes t: "parse_time v = Inr t"
    and c: "header_colID (path_header headerPathParts header) headers = (colID, headers')"
    and old: "map_of row colID = Some old"
  shows "\<exists>row'. add_value_to_row_normal header v headerPathParts headers row options True True =
        Inr (headers', row') \<and>
      map_of row' colID = Some (old @ separator options @ replace_newlines options t) \<and>
      map fst row' = map fst row \<and> (\<forall>k. k \<noteq> colID \<longrightarrow> map_of row' k = map_of row k)"
proof -
  let ?row = "AList.update colID (old @ separator options @ replace_newlines options t) row"
  have "add_value_to_row_normal header v headerPathParts headers row options True True =
      Inr (headers', ?row)"
    using add_value_to_row_normal_included [OF t c, of row options True] old
    by (simp add: with_separator_True)
  moreover have "map_of ?row colID = Some (old @ separator options @ replace_newlines options t)"
    by (simp add: AList.update_conv')
  moreover have "colID \<in> set (map fst row)"
    using old by (metis map_of_eq_None_iff option.distinct(1) set_map)
  then have "map fst ?row = map fst row"
    by (simp add: AList.update_keys)
  moreover have "\<forall>k. k \<noteq> colID \<longrightarrow> map_of ?row k = map_of row k"
    by (simp add: AList.update_conv')
  ultimately show ?thesis by blast
qed

lemma event_field_repeated:
  assumes t: "parse_time v = Inr t"
    and c: "header_colID header headers = (colID, headers')"
    and old: "colID \<in> ids_event row"
  shows "\<exists>row' i. add_value_to_row_eventbuffer header v headers row options True =
        Inr (headers', row') \<and>
      i < length row \<and> colid (row ! i) = colID \<and> (\<forall>j < i. colid (row ! j) \<noteq> colID) \<and>
      cell (row' ! i) = cell (row ! i) @ separator options @ replace_newlines options t \<and>
      map colid row' = map colid row \<and> (\<forall>j. j \<noteq> i \<longrightarrow> row' ! j = row ! j)"
proof -
  let ?v = "replace_newlines options t"
  let ?row = "fst (append_to_cell colID options True ?v row)"
  obtain i where i: "i < length row" "colid (row ! i) = colID" "\<forall>j < i. colid (row ! j) \<noteq> colID"
    "?row = row[i := (row ! i)\<lparr>cell := cell (row ! i) @ with_separator options True ?v\<rparr>]"
    using append_to_cell_first [OF old] by blast
  have "add_value_to_row_eventbuffer header v headers row options True = Inr (headers', ?row)"
    using add_value_to_row_eventbuffer_eq [OF t c] old by simp
  moreover have "cell (?row ! i) = cell (row ! i) @ separator options @ ?v"
    using i(1) by (simp add: i(4) with_separator_True)
  moreover have "map colid ?row = map colid row"
    by (rule append_to_cell_ids)
  moreover have "\<forall>j. j \<noteq> i \<longrightarrow> ?row ! j = row ! j"
    by (simp add: i(4))
  ultimately show ?thesis using i(1,2,3) by blast
qed

lemma parse_time_short: "length s < 19 \<Longrightarrow> parse_time s = Inr s"
  by (simp add: parse_time_eq millis_shape_def seconds_shape_def)

lemma replace_newlines_a: "replace_newlines options ''a'' = ''a''"
  by (simp add: replace_newlines_def CR_def LF_def)

lemma replace_newlines_b: "replace_newlines options ''b'' = ''b''"
  by (simp add: replace_newlines_def CR_def LF_def)

lemma normal_a_then_b:
  assumes c: "header_colID (path_header p f) headers = (colID, headers')"
  shows "record_normal options
     [\<lparr>c_header = f, c_value = ''a'', c_headerPathParts = p, c_existingGetsNewLine = True,
        c_include_value = True\<rparr>,
      \<lparr>c_header = f, c_value = ''b'', c_headerPathParts = p, c_existingGetsNewLine = True,
        c_include_value = True\<rparr>] headers [] =
     Inr (headers', [(colID, ''a'' @ separator options @ ''b'')])"
proof -
  have a: "add_value_to_row_normal f ''a'' p headers [] options True True =
      Inr (headers', [(colID, ''a'')])"
    using add_value_to_row_normal_included [OF parse_time_short c, of "''a''" "[]" options True]
    by (simp add: replace_newlines_a)
  have b: "add_value_to_row_normal f ''b'' p headers' [(colID, ''a'')] options True True =
      Inr (headers', [(colID, ''a'' @ separator options @ ''b'')])"
    using add_value_to_row_normal_included [OF parse_time_short header_colID_again [OF c],
        of "''b''" "[(colID, ''a'')]" options True]
    by (simp add: replace_newlines_b with_separator_True)
  show ?thesis by (simp add: a b)
qed


section \<open>The tables of the event parsers\<close>

lemma tables_grow_refl: "tables_grow st st"
  by (simp add: tables_grow_def)

lemma tables_grow_trans:
  assumes "tables_grow a b" "tables_grow b c"
  shows "tables_grow a c"
proof -
  have "prefix (allHeaders a ! i) (allHeaders c ! i)" if "i < length (allHeaders a)" for i
  proof -
    have "i < length (allHeaders b)" using that assms(1) by (simp add: tables_grow_def)
    then have "prefix (allHeaders b ! i) (allHeaders c ! i)"
      using assms(2) by (simp add: tables_grow_def)
    moreover have "prefix (allHeaders a ! i) (allHeaders b ! i)"
      using that assms(1) by (simp add: tables_grow_def)
    ultimately show ?thesis by (rule prefix_order.trans[rotated])
  qed
  moreover have "prefix (eventTypes a) (eventTypes c)"
    using assms by (auto simp: tables_grow_def)
  moreover have "length (allHeaders a) \<le> length (allHeaders c)"
    using assms by (auto simp: tables_grow_def)
  ultimately show ?thesis by (simp add: tables_grow_def)
qed

lemma event_type_id_ok:
  assumes "tables_ok st"
  shows "\<exists>i st'. event_type_id eventType st = Inr (i, st') \<and> tables_ok st' \<and>
     i < length (allHeaders st') \<and> map_of (eventTypes st') eventType = Some i \<and>
     tables_grow st st'"
proof (cases "map_of (eventTypes st) eventType")
  case (Some i)
  have "i < length (eventTypes st)"
    using tables_ok_lengths(3) [OF assms] Some by (rule headers_ok_id_less)
  then show ?thesis
    using event_type_id_old [OF Some] assms Some tables_ok_lengths(1) [OF assms]
    by (simp add: tables_grow_refl)
next
  case None
  let ?n = "length (eventTypes st)"
  let ?st = "st\<lparr>eventTypes := eventTypes st @ [(eventType, ?n)],
             tables := tables st @ [[]],
             allHeaders := allHeaders st @ [seeded_headers]\<rparr>"
  have e: "event_type_id eventType st = Inr (?n, ?st)"
    using None tables_ok_lengths(1) [OF assms] by (rule event_type_id_new)
  have h: "headers_ok (eventTypes ?st)"
    using tables_ok_lengths(3) [OF assms] None by (simp add: headers_ok_append)
  have n: "\<forall>i < length (allHeaders ?st).
        headers_ok (allHeaders ?st ! i) \<and> prefix seeded_headers (allHeaders ?st ! i) \<and>
        (\<forall>row \<in> set (tables ?st ! i). \<forall>c \<in> ids_event row.
           c < length (allHeaders ?st ! i) \<and> c \<noteq> 0)"
  proof (intro allI impI)
    fix i assume "i < length (allHeaders ?st)"
    then consider "i < length (allHeaders st)" | "i = length (allHeaders st)" by fastforce
    then show "headers_ok (allHeaders ?st ! i) \<and> prefix seeded_headers (allHeaders ?st ! i) \<and>
        (\<forall>row \<in> set (tables ?st ! i). \<forall>c \<in> ids_event row.
           c < length (allHeaders ?st ! i) \<and> c \<noteq> 0)"
    proof cases
      case 1
      then have "i < length (tables st)" using tables_ok_lengths [OF assms] by simp
      then show ?thesis using 1 tables_ok_nth [OF assms 1] by (simp add: nth_append)
    next
      case 2
      then have "i = length (tables st)" using tables_ok_lengths [OF assms] by simp
      then show ?thesis using 2 headers_ok_seeded by (simp add: nth_append)
    qed
  qed
  have "tables_ok ?st"
    unfolding tables_ok_def using h n tables_ok_lengths [OF assms] by simp
  moreover have "map_of (eventTypes st @ [(eventType, ?n)]) eventType = Some ?n"
    using None by (rule map_of_append_new)
  then have "map_of (eventTypes ?st) eventType = Some ?n"
    by simp
  moreover have "tables_grow st ?st"
    by (simp add: tables_grow_def nth_append)
  ultimately show ?thesis
    using e tables_ok_lengths(1) [OF assms] by simp
qed

lemma tables_ok_update:
  assumes ok: "tables_ok st" and i: "i < length (allHeaders st)"
    and hs': "headers_ok hs'" "prefix (allHeaders st ! i) hs'"
    and rows: "rows = tables st ! i \<or> (\<exists>row. rows = tables st ! i @ [row] \<and>
       (\<forall>c \<in> ids_event row. c < length hs' \<and> c \<noteq> 0))"
  shows "tables_ok (st\<lparr>allHeaders := (allHeaders st)[i := hs'], tables := (tables st)[i := rows]\<rparr>)"
proof -
  let ?st = "st\<lparr>allHeaders := (allHeaders st)[i := hs'], tables := (tables st)[i := rows]\<rparr>"
  have it: "i < length (tables st)"
    using i tables_ok_lengths [OF ok] by simp
  have le: "length (allHeaders st ! i) \<le> length hs'"
    using hs'(2) by (rule prefix_length_le)
  have seeded: "prefix seeded_headers hs'"
    using tables_ok_nth(2) [OF ok i] hs'(2) by (rule prefix_order.trans)
  have old: "\<forall>row \<in> set (tables st ! i). \<forall>c \<in> ids_event row. c < length hs' \<and> c \<noteq> 0"
  proof (intro ballI)
    fix row c assume "row \<in> set (tables st ! i)" "c \<in> ids_event row"
    then have "c < length (allHeaders st ! i) \<and> c \<noteq> 0"
      using tables_ok_nth(3) [OF ok i] by blast
    then show "c < length hs' \<and> c \<noteq> 0" using le by simp
  qed
  have new: "\<forall>row \<in> set rows. \<forall>c \<in> ids_event row. c < length hs' \<and> c \<noteq> 0"
    using rows old by auto
  have "\<forall>j < length (allHeaders ?st).
        headers_ok (allHeaders ?st ! j) \<and> prefix seeded_headers (allHeaders ?st ! j) \<and>
        (\<forall>row \<in> set (tables ?st ! j). \<forall>c \<in> ids_event row.
           c < length (allHeaders ?st ! j) \<and> c \<noteq> 0)"
  proof (intro allI impI)
    fix j assume "j < length (allHeaders ?st)"
    then have j: "j < length (allHeaders st)" by simp
    show "headers_ok (allHeaders ?st ! j) \<and> prefix seeded_headers (allHeaders ?st ! j) \<and>
        (\<forall>row \<in> set (tables ?st ! j). \<forall>c \<in> ids_event row.
           c < length (allHeaders ?st ! j) \<and> c \<noteq> 0)"
    proof (cases "j = i")
      case True
      then show ?thesis using i it hs'(1) seeded new by simp
    next
      case False
      then show ?thesis using tables_ok_nth [OF ok j] by simp
    qed
  qed
  then show ?thesis
    unfolding tables_ok_def using tables_ok_lengths [OF ok] by simp
qed

lemma event_item_ok:
  assumes "tables_ok st"
  shows "\<exists>st'. event_item options ev st = Inr st' \<and> tables_ok st' \<and>
     tables_grow st st'"
proof -
  let ?et = "UpperCamelCase (fst ev)"
  obtain i st1 where t: "event_type_id ?et st = Inr (i, st1)" "tables_ok st1"
    "i < length (allHeaders st1)" "tables_grow st st1"
    using event_type_id_ok [OF assms] by blast
  have e: "\<forall>c \<in> ids_event []. c < length (allHeaders st1 ! i) \<and> c \<noteq> 0"
    by (simp add: ids_event_def)
  obtain hs' row where r: "record_event options ?et (snd ev) (allHeaders st1 ! i) [] = Inr (hs', row)"
    "headers_ok hs'" "prefix (allHeaders st1 ! i) hs'"
    "\<forall>c \<in> ids_event row. c < length hs' \<and> c \<noteq> 0"
    using record_event_run [OF tables_ok_nth(1,2) [OF t(2,3)] e] by blast
  have it: "i < length (tables st1)"
    using t(3) tables_ok_lengths [OF t(2)] by simp
  let ?rows = "if row = [] then tables st1 ! i else tables st1 ! i @ [row]"
  let ?st = "st1\<lparr>allHeaders := (allHeaders st1)[i := hs'], tables := (tables st1)[i := ?rows]\<rparr>"
  have "?rows = tables st1 ! i \<or> (\<exists>row. ?rows = tables st1 ! i @ [row] \<and>
       (\<forall>c \<in> ids_event row. c < length hs' \<and> c \<noteq> 0))"
    using r(4) by auto
  with t(2,3) r(2,3) have ok: "tables_ok ?st"
    by (rule tables_ok_update)
  have "event_item options ev st = Inr ?st"
    using t(1,3) r(1) it by (simp add: event_item_def Let_def list_update_same_conv)
  moreover have "tables_grow st1 ?st"
    using r(3) t(3) by (simp add: tables_grow_def nth_list_update)
  then have "tables_grow st ?st"
    using t(4) tables_grow_trans by blast
  ultimately show ?thesis using ok by blast
qed

lemma event_items_ok:
  assumes "tables_ok st"
  shows "\<exists>st'. event_items options evs st = Inr st' \<and> tables_ok st' \<and>
     tables_grow st st'"
  using assms
proof (induction evs arbitrary: st)
  case Nil
  then show ?case by (simp add: tables_grow_refl)
next
  case (Cons ev evs)
  obtain st1 where a: "event_item options ev st = Inr st1" "tables_ok st1"
    "tables_grow st st1"
    using event_item_ok [OF Cons.prems] by blast
  obtain st' where b: "event_items options evs st1 = Inr st'" "tables_ok st'"
    "tables_grow st1 st'"
    using Cons.IH [OF a(2)] by blast
  have "tables_grow st st'" using a(3) b(3) by (rule tables_grow_trans)
  then show ?case using a(1) b by simp
qed

lemma tables_ok_initial: "tables_ok \<lparr>eventTypes = [], allHeaders = [], tables = []\<rparr>"
  by (simp add: tables_ok_def headers_ok_empty)

lemma parse_events_ok: "\<exists>st. parse_events options evs = Inr st \<and> tables_ok st"
  using event_items_ok [OF tables_ok_initial] unfolding parse_events_def by blast

lemma headers_ok_id_exists:
  assumes "headers_ok hs" "c < length hs"
  shows "\<exists>!h. map_of hs h = Some c"
  using assms by (rule headers_ok_unique_name)

lemma parse_normal_ok:
  "\<exists>hs rows. parse_normal options recs = Inr (hs, rows) \<and> headers_ok hs \<and>
     (\<forall>row \<in> set rows. \<forall>c \<in> ids_normal row. c < length hs)"
proof -
  have "\<forall>row \<in> set []. \<forall>c \<in> ids_normal row. c < length ([] :: headers)" by simp
  from records_normal_run [OF headers_ok_empty this, of options recs]
  show ?thesis unfolding parse_normal_def by blast
qed

lemma headers_ok_ids: "headers_ok hs \<Longrightarrow> snd ` set hs = {0..<length hs}"
proof -
  assume "headers_ok hs"
  then have "set (map snd hs) = set [0..<length hs]"
    by (simp add: headers_ok_def)
  then show ?thesis by simp
qed

lemma header_colID_step:
  assumes ok: "headers_ok headers"
  shows "\<exists>colID headers'. header_colID header headers = (colID, headers') \<and>
         headers_ok headers' \<and> map_of headers' header = Some colID \<and> prefix headers headers' \<and>
         (\<forall>h c. map_of headers h = Some c \<longrightarrow> map_of headers' h = Some c) \<and>
         (map_of headers header = None \<longrightarrow>
            colID = length headers \<and> colID \<notin> snd ` set headers \<and>
            headers' = headers @ [(header, colID)]) \<and>
         (map_of headers header \<noteq> None \<longrightarrow> headers' = headers)"
proof -
  obtain c hs' where c: "header_colID header headers = (c, hs')"
    by (cases "header_colID header headers")
  note k = header_colID_ok [OF ok c]
  have keep: "\<forall>h c. map_of headers h = Some c \<longrightarrow> map_of hs' h = Some c"
    using k(4) by (simp add: prefix_map_of)
  have fresh: "length headers \<notin> snd ` set headers"
    using headers_ok_ids [OF ok] by simp
  consider (old) "map_of headers header = Some c" "hs' = headers"
    | (new) "map_of headers header = None" "c = length headers" "hs' = headers @ [(header, length headers)]"
    using header_colID_cases [OF c] by (elim disjE conjE)
  then have cases: "(map_of headers header = None \<longrightarrow>
        c = length headers \<and> c \<notin> snd ` set headers \<and> hs' = headers @ [(header, c)]) \<and>
      (map_of headers header \<noteq> None \<longrightarrow> hs' = headers)"
  proof cases
    case old
    then show ?thesis by simp
  next
    case new
    then show ?thesis using fresh by simp
  qed
  note new' = cases [THEN conjunct1] and old' = cases [THEN conjunct2]
  show ?thesis
    using c k(1,2,4) keep new' old'
    by (intro exI [of _ c] exI [of _ hs'] conjI) assumption+
qed

lemma records_normal_keep:
  assumes "headers_ok headers" "\<forall>row \<in> set rows. \<forall>c \<in> ids_normal row. c < length headers"
  shows "\<exists>headers' rows'. records_normal options recs headers rows = Inr (headers', rows') \<and>
         headers_ok headers' \<and> prefix headers headers' \<and>
         (\<forall>h c. map_of headers h = Some c \<longrightarrow> map_of headers' h = Some c)"
proof -
  obtain hs' rows' where r: "records_normal options recs headers rows = Inr (hs', rows')"
    "headers_ok hs'" "prefix headers hs'"
    using records_normal_run [OF assms, of options recs] by (elim exE conjE)
  have "\<forall>h c. map_of headers h = Some c \<longrightarrow> map_of hs' h = Some c"
    using r(3) by (simp add: prefix_map_of)
  then show ?thesis
    using r by (intro exI [of _ hs'] exI [of _ rows'] conjI) assumption+
qed

lemma parse_normal_rows:
  "\<exists>hs rs. parse_normal options recs = Inr (hs, rs) \<and> headers_ok hs \<and>
      (\<forall>row \<in> set rs. \<forall>c \<in> ids_normal row. \<exists>!h. map_of hs h = Some c)"
proof -
  obtain hs rs where p: "parse_normal options recs = Inr (hs, rs)" "headers_ok hs"
    "\<forall>row \<in> set rs. \<forall>c \<in> ids_normal row. c < length hs"
    using parse_normal_ok [of options recs] by (elim exE conjE)
  have "\<forall>row \<in> set rs. \<forall>c \<in> ids_normal row. \<exists>!h. map_of hs h = Some c"
  proof (intro ballI)
    fix row c assume "row \<in> set rs" "c \<in> ids_normal row"
    then have "c < length hs" using p(3) by simp
    with p(2) show "\<exists>!h. map_of hs h = Some c" by (rule headers_ok_id_exists)
  qed
  then show ?thesis
    using p(1,2) by (intro exI [of _ hs] exI [of _ rs] conjI) assumption+
qed

lemma parse_events_rows:
  "\<exists>st. parse_events options evs = Inr st \<and> headers_ok (eventTypes st) \<and>
      length (tables st) = length (allHeaders st) \<and>
      (\<forall>i < length (allHeaders st). headers_ok (allHeaders st ! i) \<and>
         (\<forall>row \<in> set (tables st ! i). \<forall>c \<in> ids_event row.
            \<exists>!h. map_of (allHeaders st ! i) h = Some c))"
proof -
  obtain s where s: "parse_events options evs = Inr s" "tables_ok s"
    using parse_events_ok [of options evs] by (elim exE conjE)
  have "headers_ok (allHeaders s ! i) \<and>
       (\<forall>row \<in> set (tables s ! i). \<forall>c \<in> ids_event row.
          \<exists>!h. map_of (allHeaders s ! i) h = Some c)" if i: "i < length (allHeaders s)" for i
  proof -
    note n = tables_ok_nth [OF s(2) i]
    have "\<forall>row \<in> set (tables s ! i). \<forall>c \<in> ids_event row.
          \<exists>!h. map_of (allHeaders s ! i) h = Some c"
    proof (intro ballI)
      fix row c assume "row \<in> set (tables s ! i)" "c \<in> ids_event row"
      then have "c < length (allHeaders s ! i)" using n(3) by simp
      with n(1) show "\<exists>!h. map_of (allHeaders s ! i) h = Some c" by (rule headers_ok_id_exists)
    qed
    then show ?thesis using n(1) by (intro conjI) assumption+
  qed
  then have all: "\<forall>i < length (allHeaders s). headers_ok (allHeaders s ! i) \<and>
       (\<forall>row \<in> set (tables s ! i). \<forall>c \<in> ids_event row.
          \<exists>!h. map_of (allHeaders s ! i) h = Some c)"
    by (intro allI impI)
  have len: "length (tables s) = length (allHeaders s)"
    using tables_ok_lengths(1,2) [OF s(2)] by simp
  show ?thesis
    using s(1) tables_ok_lengths(3) [OF s(2)] len all
    by (intro exI [of _ s] conjI) assumption+
qed

section \<open>Column ids\<close>

text \<open>
  C2. A header table is changed only by the column lookup of the two accumulators and by the
  seeding of a new event type. The lookup keeps every pair of the table and gives a name
  that is not in it the id \<^verbatim>\<open>len(headers)\<close>, which no name has yet; so from the empty table,
  over any sequence of records, the table only grows, its ids are \<open>0, \<dots>, n - 1\<close> with one
  name each, and every column id of every collected row is the id of exactly one name. This
  holds for the table of the Normal parser and for the table of each event type.
\<close>

theorem header_ids_assigned_once:
  "(headers_ok headers \<longrightarrow>
      (\<exists>colID headers'. header_colID header headers = (colID, headers') \<and>
         headers_ok headers' \<and> map_of headers' header = Some colID \<and> prefix headers headers' \<and>
         (\<forall>h c. map_of headers h = Some c \<longrightarrow> map_of headers' h = Some c) \<and>
         (map_of headers header = None \<longrightarrow>
            colID = length headers \<and> colID \<notin> snd ` set headers \<and>
            headers' = headers @ [(header, colID)]) \<and>
         (map_of headers header \<noteq> None \<longrightarrow> headers' = headers))) \<and>
   (headers_ok headers \<and> (\<forall>row \<in> set rows. \<forall>c \<in> ids_normal row. c < length headers) \<longrightarrow>
      (\<exists>headers' rows'. records_normal options recs headers rows = Inr (headers', rows') \<and>
         headers_ok headers' \<and> prefix headers headers' \<and>
         (\<forall>h c. map_of headers h = Some c \<longrightarrow> map_of headers' h = Some c))) \<and>
   (\<exists>hs rs. parse_normal options recs = Inr (hs, rs) \<and> headers_ok hs \<and>
      (\<forall>row \<in> set rs. \<forall>c \<in> ids_normal row. \<exists>!h. map_of hs h = Some c)) \<and>
   (tables_ok st \<longrightarrow>
      (\<exists>st'. event_items options evs st = Inr st' \<and> tables_ok st' \<and> tables_grow st st')) \<and>
   (\<exists>st. parse_events options evs = Inr st \<and> headers_ok (eventTypes st) \<and>
      length (tables st) = length (allHeaders st) \<and>
      (\<forall>i < length (allHeaders st). headers_ok (allHeaders st ! i) \<and>
         (\<forall>row \<in> set (tables st ! i). \<forall>c \<in> ids_event row.
            \<exists>!h. map_of (allHeaders st ! i) h = Some c)))"
proof (intro conjI impI)
  assume "headers_ok headers"
  then show "\<exists>colID headers'. header_colID header headers = (colID, headers') \<and>
         headers_ok headers' \<and> map_of headers' header = Some colID \<and> prefix headers headers' \<and>
         (\<forall>h c. map_of headers h = Some c \<longrightarrow> map_of headers' h = Some c) \<and>
         (map_of headers header = None \<longrightarrow>
            colID = length headers \<and> colID \<notin> snd ` set headers \<and>
            headers' = headers @ [(header, colID)]) \<and>
         (map_of headers header \<noteq> None \<longrightarrow> headers' = headers)"
    by (rule header_colID_step)
next
  assume a: "headers_ok headers \<and> (\<forall>row \<in> set rows. \<forall>c \<in> ids_normal row. c < length headers)"
  show "\<exists>headers' rows'. records_normal options recs headers rows = Inr (headers', rows') \<and>
         headers_ok headers' \<and> prefix headers headers' \<and>
         (\<forall>h c. map_of headers h = Some c \<longrightarrow> map_of headers' h = Some c)"
    using a [THEN conjunct1] a [THEN conjunct2] by (rule records_normal_keep)
next
  show "\<exists>hs rs. parse_normal options recs = Inr (hs, rs) \<and> headers_ok hs \<and>
      (\<forall>row \<in> set rs. \<forall>c \<in> ids_normal row. \<exists>!h. map_of hs h = Some c)"
    by (rule parse_normal_rows)
next
  assume "tables_ok st"
  then show "\<exists>st'. event_items options evs st = Inr st' \<and> tables_ok st' \<and> tables_grow st st'"
    by (rule event_items_ok)
next
  show "\<exists>st. parse_events options evs = Inr st \<and> headers_ok (eventTypes st) \<and>
      length (tables st) = length (allHeaders st) \<and>
      (\<forall>i < length (allHeaders st). headers_ok (allHeaders st ! i) \<and>
         (\<forall>row \<in> set (tables st ! i). \<forall>c \<in> ids_event row.
            \<exists>!h. map_of (allHeaders st ! i) h = Some c))"
    by (rule parse_events_rows)
qed

theorem header_ids_assigned_once_witness:
  "headers_ok [(''Path'', 0)] \<and>
   map_of [(''Path'', 0::nat)] ''Info.Size'' = None \<and>
   header_colID ''Info.Size'' [(''Path'', 0)] = (1, [(''Path'', 0), (''Info.Size'', 1)]) \<and>
   headers_ok [(''Path'', 0), (''Info.Size'', 1)] \<and>
   parse_normal 
       \<lparr>Config = \<lparr>OmitUnlisted = False, HeadersMandatory = [], HeadersOptional = [],
                   AuditHeaderConfigs = []\<rparr>,
        ReplaceNewLineFeeds = False, ForceReparse = False, ExcelFriendly = False,
        WipeOutput = False, Warnbox = ''[!] '', Box = ''[+] ''\<rparr>
       
        [[\<lparr>c_header = ''Path'', c_value = ''C:'', c_headerPathParts = [],
            c_existingGetsNewLine = True, c_include_value = True\<rparr>,
          \<lparr>c_header = ''Size'', c_value = ''7'', c_headerPathParts = [''Info''],
            c_existingGetsNewLine = True, c_include_value = True\<rparr>],
         [\<lparr>c_header = ''Size'', c_value = ''9'', c_headerPathParts = [''Info''],
            c_existingGetsNewLine = True, c_include_value = True\<rparr>]] =
     Inr ([(''Path'', 0), (''Info.Size'', 1)], [[(0, ''C:''), (1, ''7'')], [(1, ''9'')]]) \<and>
   tables_ok \<lparr>eventTypes = [], allHeaders = [], tables = []\<rparr> \<and>
   parse_events 
       \<lparr>Config = \<lparr>OmitUnlisted = False, HeadersMandatory = [], HeadersOptional = [],
                   AuditHeaderConfigs = []\<rparr>,
        ReplaceNewLineFeeds = False, ForceReparse = False, ExcelFriendly = False,
        WipeOutput = False, Warnbox = ''[!] '', Box = ''[+] ''\<rparr>
       
        [(''dnsLookupEvent'',
          [\<lparr>e_source = Attr_UID, e_value = ''41'', e_existingValueGetsNewLine = True\<rparr>,
           \<lparr>e_source = Field ''hostname'', e_value = ''h'', e_existingValueGetsNewLine = True\<rparr>])] =
     Inr \<lparr>eventTypes = [(''DnsLookupEvent'', 0)],
          allHeaders = [[(''Hostname'', 0), (''AgentID'', 1), (''UID'', 2), (''DNSHostname'', 3)]],
          tables = [[[\<lparr>colid = 2, cell = ''41''\<rparr>, \<lparr>colid = 3, cell = ''h''\<rparr>]]]\<rparr>"
proof -
  let ?o = "\<lparr>Config = \<lparr>OmitUnlisted = False, HeadersMandatory = [], HeadersOptional = [],
                   AuditHeaderConfigs = []\<rparr>,
        ReplaceNewLineFeeds = False, ForceReparse = False, ExcelFriendly = False,
        WipeOutput = False, Warnbox = ''[!] '', Box = ''[+] ''\<rparr>"
  let ?recs = "[[\<lparr>c_header = ''Path'', c_value = ''C:'', c_headerPathParts = [],
            c_existingGetsNewLine = True, c_include_value = True\<rparr>,
          \<lparr>c_header = ''Size'', c_value = ''7'', c_headerPathParts = [''Info''],
            c_existingGetsNewLine = True, c_include_value = True\<rparr>],
         [\<lparr>c_header = ''Size'', c_value = ''9'', c_headerPathParts = [''Info''],
            c_existingGetsNewLine = True, c_include_value = True\<rparr>]]"
  let ?evs = "[(''dnsLookupEvent'',
          [\<lparr>e_source = Attr_UID, e_value = ''41'', e_existingValueGetsNewLine = True\<rparr>,
           \<lparr>e_source = Field ''hostname'', e_value = ''h'', e_existingValueGetsNewLine = True\<rparr>])]"
  note w = header_ids_assigned_once [of "[(''Path'', 0)]" "''Info.Size''" "[]" ?o ?recs
      "\<lparr>eventTypes = [], allHeaders = [], tables = []\<rparr>" ?evs]
  have a: "headers_ok [(''Path'', 0)]"
    by (simp add: headers_ok_def)
  have b: "map_of [(''Path'', 0::nat)] ''Info.Size'' = None"
    by simp
  have c: "header_colID ''Info.Size'' [(''Path'', 0)] = (1, [(''Path'', 0), (''Info.Size'', 1)])"
    using w a b by (simp add: header_colID_def)
  have d: "headers_ok [(''Path'', 0), (''Info.Size'', 1)]"
    using w a c by (simp add: headers_ok_def upt_rec)
  have pt: "parse_time ''C:'' = Inr ''C:''" "parse_time ''7'' = Inr ''7''" "parse_time ''9'' = Inr ''9''"
    "parse_time ''41'' = Inr ''41''" "parse_time ''h'' = Inr ''h''"
    by (simp_all add: parse_time_short)
  have e: "parse_normal ?o ?recs =
     Inr ([(''Path'', 0), (''Info.Size'', 1)], [[(0, ''C:''), (1, ''7'')], [(1, ''9'')]])"
    using w by (simp add: parse_normal_def add_value_to_row_normal_def pt replace_newlines_def
        header_colID_def path_header_def)
  have f: "tables_ok \<lparr>eventTypes = [], allHeaders = [], tables = []\<rparr>"
    by (rule tables_ok_initial)
  have g: "parse_events ?o ?evs =
     Inr \<lparr>eventTypes = [(''DnsLookupEvent'', 0)],
          allHeaders = [[(''Hostname'', 0), (''AgentID'', 1), (''UID'', 2), (''DNSHostname'', 3)]],
          tables = [[[\<lparr>colid = 2, cell = ''41''\<rparr>, \<lparr>colid = 3, cell = ''h''\<rparr>]]]\<rparr>"
    using w f by (simp add: parse_events_def event_item_def event_type_id_def set_header_at_def
        add_value_to_row_eventbuffer_def pt replace_newlines_def header_colID_def
        field_header_hostname UpperCamelCase_def ToUpper1_def lower_letters_def upper_letters_def)
  show ?thesis
    by (intro conjI) (rule a b c d e f g)+
qed

section \<open>The header table of an event type\<close>

lemma parse_events_seeded:
  "\<exists>st. parse_events options evs = Inr st \<and>
      (\<forall>et i. map_of (eventTypes st) et = Some i \<longrightarrow>
         i < length (allHeaders st) \<and> i < length (tables st) \<and>
         prefix [(''Hostname'', 0), (''AgentID'', 1)] (allHeaders st ! i) \<and>
         distinct (map fst (allHeaders st ! i)) \<and>
         map snd (allHeaders st ! i) = [0..<length (allHeaders st ! i)] \<and>
         (\<forall>row \<in> set (tables st ! i). \<forall>rv \<in> set row.
            colid rv \<noteq> 0 \<and> colid rv < length (allHeaders st ! i)))"
proof -
  obtain s where s: "parse_events options evs = Inr s" "tables_ok s"
    using parse_events_ok [of options evs] by (elim exE conjE)
  note l = tables_ok_lengths [OF s(2)]
  have "i < length (allHeaders s) \<and> i < length (tables s) \<and>
         prefix [(''Hostname'', 0), (''AgentID'', 1)] (allHeaders s ! i) \<and>
         distinct (map fst (allHeaders s ! i)) \<and>
         map snd (allHeaders s ! i) = [0..<length (allHeaders s ! i)] \<and>
         (\<forall>row \<in> set (tables s ! i). \<forall>rv \<in> set row.
            colid rv \<noteq> 0 \<and> colid rv < length (allHeaders s ! i))"
    if m: "map_of (eventTypes s) et = Some i" for et i
  proof -
    have "i < length (eventTypes s)"
      using l(3) m by (rule headers_ok_id_less)
    then have i: "i < length (allHeaders s)" and it: "i < length (tables s)"
      using l(1,2) by simp_all
    note n = tables_ok_nth [OF s(2) i]
    have rows: "\<forall>row \<in> set (tables s ! i). \<forall>rv \<in> set row.
            colid rv \<noteq> 0 \<and> colid rv < length (allHeaders s ! i)"
    proof (intro ballI)
      fix row rv assume r: "row \<in> set (tables s ! i)" "rv \<in> set row"
      then have "colid rv \<in> ids_event row" by (simp add: ids_event_def)
      then have "colid rv < length (allHeaders s ! i) \<and> colid rv \<noteq> 0"
        using n(3) r(1) by simp
      then show "colid rv \<noteq> 0 \<and> colid rv < length (allHeaders s ! i)" by simp
    qed
    have d: "distinct (map fst (allHeaders s ! i))"
      and u: "map snd (allHeaders s ! i) = [0..<length (allHeaders s ! i)]"
      using n(1) by (simp_all add: headers_ok_def)
    have p: "prefix [(''Hostname'', 0), (''AgentID'', 1)] (allHeaders s ! i)"
      using n(2) by (simp add: seeded_headers_def)
    show ?thesis
      using i it p d u rows by (intro conjI) assumption+
  qed
  then have "\<forall>et i. map_of (eventTypes s) et = Some i \<longrightarrow>
         i < length (allHeaders s) \<and> i < length (tables s) \<and>
         prefix [(''Hostname'', 0), (''AgentID'', 1)] (allHeaders s ! i) \<and>
         distinct (map fst (allHeaders s ! i)) \<and>
         map snd (allHeaders s ! i) = [0..<length (allHeaders s ! i)] \<and>
         (\<forall>row \<in> set (tables s ! i). \<forall>rv \<in> set row.
            colid rv \<noteq> 0 \<and> colid rv < length (allHeaders s ! i))"
    by (intro allI impI)
  then show ?thesis
    using s(1) by (intro exI [of _ s] conjI) assumption+
qed

lemma header_colID_new:
  "map_of headers header = None \<Longrightarrow>
     header_colID header headers = (length headers, headers @ [(header, length headers)])"
  by (simp add: header_colID_def update_absent)

text \<open>
  C10. In both event parsers the header table of a new event type is
  \<^verbatim>\<open>Hostname\<close> with id 0 and \<^verbatim>\<open>AgentID\<close> with id 1, and it holds these two pairs before any
  call records a field. A column met for the first time gets the length of the table as
  its id. So in the table of every event type of a finished parse the two pairs come
  first, every name stands once and the ids are \<open>0, \<dots>, n - 1\<close>. No call of the parsers
  passes the name \<^verbatim>\<open>Hostname\<close>: a tag or a detail named \<^verbatim>\<open>hostname\<close> is recorded as
  \<^verbatim>\<open>DNSHostname\<close>, and no cell of any collected row has the column id 0.
\<close>

theorem event_headers_seeded_and_consecutive:
  "(length (allHeaders st) = length (eventTypes st) \<and> map_of (eventTypes st) eventType = None \<longrightarrow>
      event_type_id eventType st =
        Inr (length (eventTypes st),
             st\<lparr>eventTypes := eventTypes st @ [(eventType, length (eventTypes st))],
                tables := tables st @ [[]],
                allHeaders := allHeaders st @ [[(''Hostname'', 0), (''AgentID'', 1)]]\<rparr>)) \<and>
   (map_of headers header = None \<longrightarrow>
      header_colID header headers = (length headers, headers @ [(header, length headers)])) \<and>
   (\<exists>st. parse_events options evs = Inr st \<and>
      (\<forall>et i. map_of (eventTypes st) et = Some i \<longrightarrow>
         i < length (allHeaders st) \<and> i < length (tables st) \<and>
         prefix [(''Hostname'', 0), (''AgentID'', 1)] (allHeaders st ! i) \<and>
         distinct (map fst (allHeaders st ! i)) \<and>
         map snd (allHeaders st ! i) = [0..<length (allHeaders st ! i)] \<and>
         (\<forall>row \<in> set (tables st ! i). \<forall>rv \<in> set row.
            colid rv \<noteq> 0 \<and> colid rv < length (allHeaders st ! i)))) \<and>
   field_header eventType ''hostname'' = ''DNSHostname'' \<and>
   detail_header ''hostname'' = ''DNSHostname'' \<and>
   header_of options eventType src \<noteq> ''Hostname''"
proof (intro conjI impI)
  assume a: "length (allHeaders st) = length (eventTypes st) \<and> map_of (eventTypes st) eventType = None"
  show "event_type_id eventType st =
        Inr (length (eventTypes st),
             st\<lparr>eventTypes := eventTypes st @ [(eventType, length (eventTypes st))],
                tables := tables st @ [[]],
                allHeaders := allHeaders st @ [[(''Hostname'', 0), (''AgentID'', 1)]]\<rparr>)"
    using event_type_id_new [OF a [THEN conjunct2] a [THEN conjunct1]]
    by (simp add: seeded_headers_def)
next
  assume "map_of headers header = None"
  then show "header_colID header headers = (length headers, headers @ [(header, length headers)])"
    by (rule header_colID_new)
next
  show "\<exists>st. parse_events options evs = Inr st \<and>
      (\<forall>et i. map_of (eventTypes st) et = Some i \<longrightarrow>
         i < length (allHeaders st) \<and> i < length (tables st) \<and>
         prefix [(''Hostname'', 0), (''AgentID'', 1)] (allHeaders st ! i) \<and>
         distinct (map fst (allHeaders st ! i)) \<and>
         map snd (allHeaders st ! i) = [0..<length (allHeaders st ! i)] \<and>
         (\<forall>row \<in> set (tables st ! i). \<forall>rv \<in> set row.
            colid rv \<noteq> 0 \<and> colid rv < length (allHeaders st ! i)))"
    by (rule parse_events_seeded)
next
  show "field_header eventType ''hostname'' = ''DNSHostname''"
    by (rule field_header_hostname)
next
  show "detail_header ''hostname'' = ''DNSHostname''"
    by (rule detail_header_hostname)
next
  show "header_of options eventType src \<noteq> ''Hostname''"
    by (rule header_of_not_Hostname)
qed

theorem event_headers_seeded_and_consecutive_witness:
  "length (allHeaders \<lparr>eventTypes = [], allHeaders = [], tables = []\<rparr>) =
     length (eventTypes \<lparr>eventTypes = [], allHeaders = [], tables = []\<rparr>) \<and>
   map_of (eventTypes \<lparr>eventTypes = [], allHeaders = [], tables = []\<rparr>) ''UrlMonitorEvent'' = None \<and>
   event_type_id ''UrlMonitorEvent'' \<lparr>eventTypes = [], allHeaders = [], tables = []\<rparr> =
     Inr (0, \<lparr>eventTypes = [(''UrlMonitorEvent'', 0)],
              allHeaders = [[(''Hostname'', 0), (''AgentID'', 1)]], tables = [[]]\<rparr>) \<and>
   map_of [(''Hostname'', 0::nat), (''AgentID'', 1)] ''DNSHostname'' = None \<and>
   header_colID ''DNSHostname'' [(''Hostname'', 0), (''AgentID'', 1)] =
     (2, [(''Hostname'', 0), (''AgentID'', 1), (''DNSHostname'', 2)]) \<and>
   parse_events
       \<lparr>Config = \<lparr>OmitUnlisted = False, HeadersMandatory = [], HeadersOptional = [],
                   AuditHeaderConfigs = []\<rparr>,
        ReplaceNewLineFeeds = False, ForceReparse = False, ExcelFriendly = False,
        WipeOutput = False, Warnbox = ''[!] '', Box = ''[+] ''\<rparr>
       [(''urlMonitorEvent'',
         [\<lparr>e_source = Field ''hostname'', e_value = ''example.org'', e_existingValueGetsNewLine = True\<rparr>,
          \<lparr>e_source = Field ''agentID'', e_value = ''x'', e_existingValueGetsNewLine = True\<rparr>]),
        (''dnsLookupEvent'',
         [\<lparr>e_source = Detail ''hostname'', e_value = ''example.org'', e_existingValueGetsNewLine = True\<rparr>])] =
     Inr \<lparr>eventTypes = [(''UrlMonitorEvent'', 0), (''DnsLookupEvent'', 1)],
          allHeaders = [[(''Hostname'', 0), (''AgentID'', 1), (''DNSHostname'', 2)],
                        [(''Hostname'', 0), (''AgentID'', 1), (''DNSHostname'', 2)]],
          tables = [[[\<lparr>colid = 2, cell = ''example.org''\<rparr>, \<lparr>colid = 1, cell = ''x''\<rparr>]],
                    [[\<lparr>colid = 2, cell = ''example.org''\<rparr>]]]\<rparr>"
proof -
  let ?o = "\<lparr>Config = \<lparr>OmitUnlisted = False, HeadersMandatory = [], HeadersOptional = [],
                   AuditHeaderConfigs = []\<rparr>,
        ReplaceNewLineFeeds = False, ForceReparse = False, ExcelFriendly = False,
        WipeOutput = False, Warnbox = ''[!] '', Box = ''[+] ''\<rparr>"
  let ?evs = "[(''urlMonitorEvent'',
         [\<lparr>e_source = Field ''hostname'', e_value = ''example.org'', e_existingValueGetsNewLine = True\<rparr>,
          \<lparr>e_source = Field ''agentID'', e_value = ''x'', e_existingValueGetsNewLine = True\<rparr>]),
        (''dnsLookupEvent'',
         [\<lparr>e_source = Detail ''hostname'', e_value = ''example.org'', e_existingValueGetsNewLine = True\<rparr>])]"
  let ?st = "\<lparr>eventTypes = [], allHeaders = [], tables = []\<rparr> :: event_tables"
  note w = event_headers_seeded_and_consecutive [of ?st "''UrlMonitorEvent''"
      "[(''Hostname'', 0), (''AgentID'', 1)]" "''DNSHostname''" ?o ?evs]
  have a: "length (allHeaders ?st) = length (eventTypes ?st)"
    by simp
  have b: "map_of (eventTypes ?st) ''UrlMonitorEvent'' = None"
    by simp
  have c: "event_type_id ''UrlMonitorEvent'' ?st =
     Inr (0, \<lparr>eventTypes = [(''UrlMonitorEvent'', 0)],
              allHeaders = [[(''Hostname'', 0), (''AgentID'', 1)]], tables = [[]]\<rparr>)"
    using w a b by simp
  have d: "map_of [(''Hostname'', 0::nat), (''AgentID'', 1)] ''DNSHostname'' = None"
    by simp
  have e: "header_colID ''DNSHostname'' [(''Hostname'', 0), (''AgentID'', 1)] =
     (2, [(''Hostname'', 0), (''AgentID'', 1), (''DNSHostname'', 2)])"
    using w d by simp
  have pt: "parse_time ''example.org'' = Inr ''example.org''" "parse_time ''x'' = Inr ''x''"
    by (simp_all add: parse_time_short)
  have g: "parse_events ?o ?evs =
     Inr \<lparr>eventTypes = [(''UrlMonitorEvent'', 0), (''DnsLookupEvent'', 1)],
          allHeaders = [[(''Hostname'', 0), (''AgentID'', 1), (''DNSHostname'', 2)],
                        [(''Hostname'', 0), (''AgentID'', 1), (''DNSHostname'', 2)]],
          tables = [[[\<lparr>colid = 2, cell = ''example.org''\<rparr>, \<lparr>colid = 1, cell = ''x''\<rparr>]],
                    [[\<lparr>colid = 2, cell = ''example.org''\<rparr>]]]\<rparr>"
    using w by (simp add: parse_events_def event_item_def event_type_id_def set_header_at_def
        add_value_to_row_eventbuffer_def pt replace_newlines_def header_colID_def
        field_header_hostname detail_header_hostname field_header_def
        UpperCamelCase_def ToUpper1_def lower_letters_def upper_letters_def)
  show ?thesis
    by (intro conjI) (rule a b c d e g)+
qed

section \<open>Properties of the Excel-friendly truncation\<close>











section \<open>Properties of the dialect detector\<close>

lemma detect_empty: "detect [] = (UnexpectedSchema, 0)"
  by (simp add: detect_def)

lemma detect_bad_first:
  "\<not> HasPrefix (TrimSpace l1) ''<?xml'' \<Longrightarrow>
     detect (l1 # rest) = (UnexpectedFirstLine (TrimSpace l1), 1)"
  by (simp add: detect_def Let_def)

lemma detect_one_line:
  "HasPrefix (TrimSpace l1) ''<?xml'' \<Longrightarrow> detect [l1] = (UnexpectedSchema, 1)"
  by (simp add: detect_def Let_def)

lemma detect_issues:
  "HasPrefix (TrimSpace l1) ''<?xml'' \<Longrightarrow> HasPrefix (ToLower (TrimSpace l2)) ''<issuelist'' \<Longrightarrow>
     detect (l1 # l2 # rest) = (IssuesFile, 2)"
  by (simp add: detect_def Let_def)

lemma detect_malformed:
  "HasPrefix (TrimSpace l1) ''<?xml'' \<Longrightarrow> \<not> HasPrefix (ToLower (TrimSpace l2)) ''<issuelist'' \<Longrightarrow>
   \<not> HasPrefix (ToLower (TrimSpace l2)) ''<itemlist'' \<Longrightarrow>
     detect (l1 # l2 # rest) = (MalformedHeader (ToLower (TrimSpace l2)), 2)"
  by (simp add: detect_def Let_def)

lemma style_not_0: "style_of_itemlist l \<noteq> 0"
  by (simp add: style_of_itemlist_def AUDIT_NORMAL_def AUDIT_EVENTBUFFER_def
      AUDIT_STATEAGENTINSPECTOR_def)

lemma detect_itemlist:
  assumes "HasPrefix (TrimSpace l1) ''<?xml''" "\<not> HasPrefix (ToLower (TrimSpace l2)) ''<issuelist''"
    "HasPrefix (ToLower (TrimSpace l2)) ''<itemlist''"
  shows "detect (l1 # l2 # rest) =
     (Style (style_of_itemlist (ToLower (TrimSpace l2))), if rest = [] then 2 else 3)"
proof (cases rest)
  case Nil
  then show ?thesis
    using assms style_not_0 [of "ToLower (TrimSpace l2)"]
    by (simp add: detect_def Let_def style_of_itemlist_def)
next
  case (Cons l3 more)
  then show ?thesis
    using assms style_not_0 [of "ToLower (TrimSpace l2)"]
    by (simp add: detect_def Let_def style_of_itemlist_def)
qed

lemma detect_at_most_3: "snd (detect lines) \<le> 3"
proof (cases lines)
  case Nil
  then show ?thesis by (simp add: detect_empty)
next
  case (Cons l1 r1)
  show ?thesis
  proof (cases "HasPrefix (TrimSpace l1) ''<?xml''")
    case False
    then show ?thesis using Cons by (simp add: detect_bad_first)
  next
    case True
    show ?thesis
    proof (cases r1)
      case Nil
      then show ?thesis using Cons True by (simp add: detect_one_line)
    next
      case (Cons l2 rest)
      consider "HasPrefix (ToLower (TrimSpace l2)) ''<issuelist''"
        | "\<not> HasPrefix (ToLower (TrimSpace l2)) ''<issuelist''" "\<not> HasPrefix (ToLower (TrimSpace l2)) ''<itemlist''"
        | "\<not> HasPrefix (ToLower (TrimSpace l2)) ''<issuelist''" "HasPrefix (ToLower (TrimSpace l2)) ''<itemlist''"
        by blast
      then show ?thesis
        using \<open>lines = l1 # r1\<close> Cons True
        by cases (simp_all add: detect_issues detect_malformed detect_itemlist)
    qed
  qed
qed


lemma issuelist_or_itemlist:
  "HasPrefix l ''<itemlist'' \<Longrightarrow> \<not> HasPrefix l ''<issuelist''"
  by (auto simp: HasPrefix_def prefix_def)

text \<open>
  C4, as the code has it. The probe hands out at most three lines, and the
  classification is settled by the first two. A first line that, trimmed, does not start
  with \<^verbatim>\<open><?xml\<close> is an unexpected-first-line error after one line. Otherwise the second
  line is trimmed and lower-cased: the prefix \<^verbatim>\<open><issuelist\<close> gives an issues file, no
  prefix \<^verbatim>\<open><itemlist\<close> gives a malformed-header error, both after two lines, and the
  prefix \<^verbatim>\<open><itemlist\<close> gives the StateAgentInspector style when the line contains
  \<^verbatim>\<open>generator="stateagentinspector"\<close>, else the EventBuffer style when it contains
  \<^verbatim>\<open>generator="eventbuffer"\<close>, else the Normal style; then a third line is read when
  there is one. A file of fewer than two lines is an unexpected-schema error. The probe
  is a function of the lines: it changes nothing but its own variables.
\<close>

theorem detect_classifies_from_two_lines:
  "snd (detect lines) \<le> 3 \<and>
   detect [] = (UnexpectedSchema, 0) \<and>
   (\<not> HasPrefix (TrimSpace l1) ''<?xml'' \<longrightarrow>
      detect (l1 # rest1) = (UnexpectedFirstLine (TrimSpace l1), 1)) \<and>
   (HasPrefix (TrimSpace l1) ''<?xml'' \<longrightarrow>
      detect [l1] = (UnexpectedSchema, 1) \<and>
      (HasPrefix (ToLower (TrimSpace l2)) ''<issuelist'' \<longrightarrow>
         detect (l1 # l2 # rest) = (IssuesFile, 2)) \<and>
      (\<not> HasPrefix (ToLower (TrimSpace l2)) ''<issuelist'' \<and>
       \<not> HasPrefix (ToLower (TrimSpace l2)) ''<itemlist'' \<longrightarrow>
         detect (l1 # l2 # rest) = (MalformedHeader (ToLower (TrimSpace l2)), 2)) \<and>
      (HasPrefix (ToLower (TrimSpace l2)) ''<itemlist'' \<longrightarrow>
         detect (l1 # l2 # rest) =
           (Style (if Contains (ToLower (TrimSpace l2)) generator_stateagentinspector
                   then AUDIT_STATEAGENTINSPECTOR
                   else if Contains (ToLower (TrimSpace l2)) generator_eventbuffer
                   then AUDIT_EVENTBUFFER else AUDIT_NORMAL),
            if rest = [] then 2 else 3)))"
proof (intro conjI impI)
  show "snd (detect lines) \<le> 3" by (rule detect_at_most_3)
next
  show "detect [] = (UnexpectedSchema, 0)" by (rule detect_empty)
next
  assume "\<not> HasPrefix (TrimSpace l1) ''<?xml''"
  then show "detect (l1 # rest1) = (UnexpectedFirstLine (TrimSpace l1), 1)"
    by (rule detect_bad_first)
next
  assume "HasPrefix (TrimSpace l1) ''<?xml''"
  then show "detect [l1] = (UnexpectedSchema, 1)" by (rule detect_one_line)
next
  assume "HasPrefix (TrimSpace l1) ''<?xml''" "HasPrefix (ToLower (TrimSpace l2)) ''<issuelist''"
  then show "detect (l1 # l2 # rest) = (IssuesFile, 2)" by (rule detect_issues)
next
  assume a: "HasPrefix (TrimSpace l1) ''<?xml''"
    and b: "\<not> HasPrefix (ToLower (TrimSpace l2)) ''<issuelist'' \<and>
       \<not> HasPrefix (ToLower (TrimSpace l2)) ''<itemlist''"
  show "detect (l1 # l2 # rest) = (MalformedHeader (ToLower (TrimSpace l2)), 2)"
    using a b [THEN conjunct1] b [THEN conjunct2] by (rule detect_malformed)
next
  assume a: "HasPrefix (TrimSpace l1) ''<?xml''"
    and b: "HasPrefix (ToLower (TrimSpace l2)) ''<itemlist''"
  show "detect (l1 # l2 # rest) =
           (Style (if Contains (ToLower (TrimSpace l2)) generator_stateagentinspector
                   then AUDIT_STATEAGENTINSPECTOR
                   else if Contains (ToLower (TrimSpace l2)) generator_eventbuffer
                   then AUDIT_EVENTBUFFER else AUDIT_NORMAL),
            if rest = [] then 2 else 3)"
    using detect_itemlist [OF a issuelist_or_itemlist [OF b] b, of rest]
    by (simp add: style_of_itemlist_def)
qed

lemmas string_eval = TrimSpace_def is_space_def ToLower_def to_lower_byte_def upper_letters_def
  lower_letters_def HasPrefix_def generator_eventbuffer_def generator_stateagentinspector_def
  DQ_def

theorem detect_classifies_from_two_lines_witness:
  "\<not> HasPrefix (TrimSpace ''PK'') ''<?xml'' \<and>
   detect [''PK'', ''<itemList>''] = (UnexpectedFirstLine ''PK'', 1) \<and>
   HasPrefix (TrimSpace '' <?xml version=1.0?>'') ''<?xml'' \<and>
   detect ['' <?xml version=1.0?>''] = (UnexpectedSchema, 1) \<and>
   HasPrefix (ToLower (TrimSpace ''<IssueList>'')) ''<issuelist'' \<and>
   detect ['' <?xml version=1.0?>'', ''<IssueList>'', ''<Issue>''] = (IssuesFile, 2) \<and>
   \<not> HasPrefix (ToLower (TrimSpace ''<html>'')) ''<issuelist'' \<and>
   \<not> HasPrefix (ToLower (TrimSpace ''<html>'')) ''<itemlist'' \<and>
   detect ['' <?xml version=1.0?>'', ''<html>'', ''<body>''] = (MalformedHeader ''<html>'', 2) \<and>
   HasPrefix (ToLower (TrimSpace ''<itemList>'')) ''<itemlist'' \<and>
   detect ['' <?xml version=1.0?>'', ''<itemList>'', ''<FileItem>'', ''</FileItem>''] =
     (Style AUDIT_NORMAL, 3) \<and>
   HasPrefix (ToLower (TrimSpace (''<itemList '' @ generator_eventbuffer @ ''>''))) ''<itemlist'' \<and>
   detect ['' <?xml version=1.0?>'', ''<itemList '' @ generator_eventbuffer @ ''>''] =
     (Style AUDIT_EVENTBUFFER, 2)"
proof -
  let ?x = "'' <?xml version=1.0?>''"
  note w = detect_classifies_from_two_lines
  have a: "\<not> HasPrefix (TrimSpace ''PK'') ''<?xml''"
    by (simp add: string_eval)
  have a': "detect [''PK'', ''<itemList>''] = (UnexpectedFirstLine ''PK'', 1)"
    using w [of _ "''PK''" "[''<itemList>'']"] a by (simp add: string_eval)
  have b: "HasPrefix (TrimSpace ?x) ''<?xml''"
    by (simp add: string_eval)
  have b': "detect [?x] = (UnexpectedSchema, 1)"
    using w [of _ ?x] b by blast
  have c: "HasPrefix (ToLower (TrimSpace ''<IssueList>'')) ''<issuelist''"
    by (simp add: string_eval)
  have c': "detect [?x, ''<IssueList>'', ''<Issue>''] = (IssuesFile, 2)"
    using w [of _ ?x _ "''<IssueList>''" "[''<Issue>'']"] b c by blast
  have d: "\<not> HasPrefix (ToLower (TrimSpace ''<html>'')) ''<issuelist''"
    "\<not> HasPrefix (ToLower (TrimSpace ''<html>'')) ''<itemlist''"
    "ToLower (TrimSpace ''<html>'') = ''<html>''"
    by (simp_all add: string_eval)
  have d': "detect [?x, ''<html>'', ''<body>''] = (MalformedHeader ''<html>'', 2)"
    using w [of _ ?x _ "''<html>''" "[''<body>'']"] b d by simp
  have e: "HasPrefix (ToLower (TrimSpace ''<itemList>'')) ''<itemlist''"
    "\<not> Contains (ToLower (TrimSpace ''<itemList>'')) generator_stateagentinspector"
    "\<not> Contains (ToLower (TrimSpace ''<itemList>'')) generator_eventbuffer"
    by (simp_all add: string_eval)
  have e': "detect [?x, ''<itemList>'', ''<FileItem>'', ''</FileItem>''] = (Style AUDIT_NORMAL, 3)"
    using w [of _ ?x _ "''<itemList>''" "[''<FileItem>'', ''</FileItem>'']"] b e by simp
  have f: "HasPrefix (ToLower (TrimSpace (''<itemList '' @ generator_eventbuffer @ ''>''))) ''<itemlist''"
    "\<not> Contains (ToLower (TrimSpace (''<itemList '' @ generator_eventbuffer @ ''>'')))
        generator_stateagentinspector"
    "Contains (ToLower (TrimSpace (''<itemList '' @ generator_eventbuffer @ ''>''))) generator_eventbuffer"
    by (simp_all add: string_eval)
  have f': "detect [?x, ''<itemList '' @ generator_eventbuffer @ ''>''] = (Style AUDIT_EVENTBUFFER, 2)"
    using w [of _ ?x _ "''<itemList '' @ generator_eventbuffer @ ''>''" "[]"] b f by simp
  show ?thesis
    by (intro conjI) (rule a a' b b' c c' d(1) d(2) d' e(1) e' f(1) f')+
qed

text \<open>
  The claim as the spec words it fails in its first part: on a file of three lines or
  more with an item list the probe hands out three lines, not two.
\<close>

theorem detect_reads_a_third_line:
  "detect [''<?xml version=1.0?>'', ''<itemList>'', ''<FileItem>'', ''</FileItem>''] =
     (Style AUDIT_NORMAL, 3) \<and>
   \<not> snd (detect [''<?xml version=1.0?>'', ''<itemList>'', ''<FileItem>'', ''</FileItem>'']) \<le> 2"
  by (simp add: detect_def Let_def string_eval AUDIT_NORMAL_def)

section \<open>Properties of the work list\<close>

lemma find_append_some: "find P xs = Some x \<Longrightarrow> find P (xs @ ys) = Some x"
  by (induction xs) (auto split: if_splits)

lemma find_append_none: "find P xs = None \<Longrightarrow> find P (xs @ ys) = find P ys"
  by (induction xs) (auto split: if_splits)

lemma same_processed_refl: "same_processed c c"
  unfolding same_processed_def by blast

lemma same_processedD:
  "same_processed c c' \<Longrightarrow>
     already_processed (cached_status c' file) \<or> already_processed (cached_status c file) \<Longrightarrow>
     cached_status c' file = cached_status c file"
  unfolding same_processed_def by blast

lemma same_processedI:
  "(\<And>file. already_processed (cached_status c' file) \<or> already_processed (cached_status c file)
      \<Longrightarrow> cached_status c' file = cached_status c file) \<Longrightarrow> same_processed c c'"
  unfolding same_processed_def by blast

lemma same_processed_trans:
  assumes "same_processed a b" "same_processed b c"
  shows "same_processed a c"
  unfolding same_processed_def
proof (intro allI impI)
  fix f assume "already_processed (cached_status c f) \<or> already_processed (cached_status a f)"
  then show "cached_status c f = cached_status a f"
  proof
    assume p: "already_processed (cached_status c f)"
    then have 1: "cached_status c f = cached_status b f"
      using assms(2) same_processedD by blast
    then have "already_processed (cached_status b f)" using p by simp
    then have "cached_status b f = cached_status a f"
      using assms(1) same_processedD by blast
    then show ?thesis using 1 by simp
  next
    assume p: "already_processed (cached_status a f)"
    then have 1: "cached_status b f = cached_status a f"
      using assms(1) same_processedD by blast
    then have "already_processed (cached_status b f)" using p by simp
    then have "cached_status c f = cached_status b f"
      using assms(2) same_processedD by blast
    then show ?thesis using 1 by simp
  qed
qed

lemma not_attempted_not_processed: "\<not> already_processed (Some ''failed/notattemptedyet'')"
  by (simp add: already_processed_def)

lemma lookup_same_processed:
  assumes "InputConfig_GetXMLParseConfig file config = (config', fileconfig)"
  shows "same_processed config config'"
    "already_processed (Some (Status fileconfig)) \<longleftrightarrow> already_processed (cached_status config file)"
proof -
  let ?new = "\<lparr>InputFileName = Name file, InputFileSize = Size file,
                       Status = ''failed/notattemptedyet''\<rparr>"
  show "same_processed config config'"
  proof (cases "find (same_file file) config")
    case (Some x)
    then show ?thesis using assms
      by (simp add: InputConfig_GetXMLParseConfig_def same_processed_refl)
  next
    case None
    have c': "config' = config @ [?new]"
      using assms None by (auto simp: InputConfig_GetXMLParseConfig_def Let_def)
    have "cached_status config' f = cached_status config f"
      if s: "already_processed (cached_status config' f) \<or> already_processed (cached_status config f)" for f
    proof (cases "find (same_file f) config")
      case (Some y)
      then show ?thesis by (simp add: cached_status_def c' find_append_some)
    next
      case n: None
      then have "\<not> already_processed (cached_status config f)"
        by (simp add: cached_status_def already_processed_def)
      moreover have "\<not> already_processed (cached_status config' f)"
        using n not_attempted_not_processed
        by (auto simp: cached_status_def c' find_append_none already_processed_def)
      ultimately show ?thesis using s by simp
    qed
    then show ?thesis by (rule same_processedI)
  qed
  show "already_processed (Some (Status fileconfig)) \<longleftrightarrow> already_processed (cached_status config file)"
  proof (cases "find (same_file file) config")
    case (Some x)
    then show ?thesis using assms
      by (auto simp: InputConfig_GetXMLParseConfig_def cached_status_def)
  next
    case None
    then have "fileconfig = ?new"
      using assms by (auto simp: InputConfig_GetXMLParseConfig_def Let_def)
    then show ?thesis
      using None not_attempted_not_processed by (simp add: cached_status_def already_processed_def)
  qed
qed

lemma counted_as_Cons:
  "counted_as config statuses (file # files) =
     (if \<not> HasSuffix (Name file) ''.json'' \<and> cached_status config file \<in> Some ` set statuses
      then 1 else 0) + counted_as config statuses files"
  by (simp add: counted_as_def)

lemma counted_as_same:
  assumes "same_processed c c'" "\<forall>s \<in> set statuses. already_processed (Some s)"
  shows "counted_as c' statuses files = counted_as c statuses files"
proof -
  have "cached_status c' f \<in> Some ` set statuses \<longleftrightarrow> cached_status c f \<in> Some ` set statuses" for f
  proof
    assume a: "cached_status c' f \<in> Some ` set statuses"
    then have "already_processed (cached_status c' f)" using assms(2) by auto
    then have "cached_status c' f = cached_status c f" using assms(1) same_processedD by blast
    then show "cached_status c f \<in> Some ` set statuses" using a by simp
  next
    assume a: "cached_status c f \<in> Some ` set statuses"
    then have "already_processed (cached_status c f)" using assms(2) by auto
    then have "cached_status c' f = cached_status c f" using assms(1) same_processedD by blast
    then show "cached_status c' f \<in> Some ` set statuses" using a by simp
  qed
  then show ?thesis by (simp add: counted_as_def)
qed

lemma kept_same:
  assumes "same_processed c c'"
  shows "kept c' f = kept c f"
proof -
  have "already_processed (cached_status c' f) \<longleftrightarrow> already_processed (cached_status c f)"
  proof
    assume a: "already_processed (cached_status c' f)"
    then have "cached_status c' f = cached_status c f" using assms same_processedD by blast
    then show "already_processed (cached_status c f)" using a by simp
  next
    assume a: "already_processed (cached_status c f)"
    then have "cached_status c' f = cached_status c f" using assms same_processedD by blast
    then show "already_processed (cached_status c' f)" using a by simp
  qed
  then show ?thesis by (simp add: kept_def)
qed


lemma lookup_cached_status:
  assumes "InputConfig_GetXMLParseConfig file config = (config', fileconfig)"
  shows "cached_status config' file = Some (Status fileconfig)"
proof (cases "find (same_file file) config")
  case (Some x)
  then show ?thesis using assms
    by (auto simp: InputConfig_GetXMLParseConfig_def cached_status_def)
next
  case None
  then show ?thesis using assms
    by (auto simp: InputConfig_GetXMLParseConfig_def Let_def cached_status_def find_append_none
        same_file_def)
qed

lemma lookup_status_original:
  assumes l: "InputConfig_GetXMLParseConfig file config = (config', fileconfig)"
    and s: "same_processed c0 config"
  shows "same_processed c0 config'"
    "already_processed (Some (Status fileconfig)) \<Longrightarrow> cached_status c0 file = Some (Status fileconfig)"
    "\<not> already_processed (Some (Status fileconfig)) \<Longrightarrow> \<not> already_processed (cached_status c0 file)"
proof -
  show s': "same_processed c0 config'"
    using s lookup_same_processed(1) [OF l] by (rule same_processed_trans)
  note c = lookup_cached_status [OF l]
  show "cached_status c0 file = Some (Status fileconfig)"
    if "already_processed (Some (Status fileconfig))"
    using same_processedD [OF s', of "file"] that c by simp
  show "\<not> already_processed (cached_status c0 file)"
    if n: "\<not> already_processed (Some (Status fileconfig))"
  proof
    assume "already_processed (cached_status c0 file)"
    then have "cached_status config' file = cached_status c0 file"
      using same_processedD [OF s', of "file"] by simp
    then show False using c n \<open>already_processed (cached_status c0 file)\<close> by simp
  qed
qed

lemma HasSuffix_rev: "HasSuffix s suf \<longleftrightarrow> prefix (rev suf) (rev s)"
  by (simp add: HasSuffix_def suffix_to_prefix)

lemma remove_parsed_forced:
  "ForceReparse options \<or> WipeOutput options \<Longrightarrow>
     remove_parsed options files config counts = (files, config, counts)"
  by (induction files) auto

lemma remove_parsed_result:
  assumes "\<not> ForceReparse options" "\<not> WipeOutput options" "same_processed c0 config"
  shows "\<exists>config' counts'. remove_parsed options files config counts =
        (filter (kept c0) files, config', counts') \<and>
      same_processed c0 config' \<and>
      c_Cached counts' = c_Cached counts + counted_as c0 [''parsed'', ''split''] files \<and>
      c_Issues counts' = c_Issues counts + counted_as c0 [''ignored/issues''] files \<and>
      c_Empty counts' = c_Empty counts + counted_as c0 [''ignored/empty''] files \<and>
      c_Success counts' = c_Success counts \<and> c_Failed counts' = c_Failed counts"
  using assms(3)
proof (induction files arbitrary: config counts)
  case Nil
  then show ?case by (simp add: counted_as_def)
next
  case (Cons xmlfile files)
  note flags = assms(1,2)
  show ?case
  proof (cases "HasSuffix (Name xmlfile) ''.json''")
    case True
    obtain config' counts' where r: "remove_parsed options files config counts =
        (filter (kept c0) files, config', counts')" "same_processed c0 config'"
      "c_Cached counts' = c_Cached counts + counted_as c0 [''parsed'', ''split''] files"
      "c_Issues counts' = c_Issues counts + counted_as c0 [''ignored/issues''] files"
      "c_Empty counts' = c_Empty counts + counted_as c0 [''ignored/empty''] files"
      "c_Success counts' = c_Success counts" "c_Failed counts' = c_Failed counts"
      using Cons.IH [OF Cons.prems, of counts] by (elim exE conjE)
    have "remove_parsed options (xmlfile # files) config counts = (filter (kept c0) (xmlfile # files), config', counts')"
      using True flags r(1) by (simp add: kept_def)
    then show ?thesis
      using r(2-7) True
      by (intro exI [of _ config'] exI [of _ counts'] conjI) (simp_all add: counted_as_Cons)
  next
    case False
    obtain config1 fc where l: "InputConfig_GetXMLParseConfig xmlfile config = (config1, fc)"
      by (cases "InputConfig_GetXMLParseConfig xmlfile config")
    note o = lookup_status_original [OF l Cons.prems]
    let ?st = "Status fc"
    let ?counts1 = "if ?st = ''parsed'' \<or> ?st = ''split'' then counts\<lparr>c_Cached := c_Cached counts + 1\<rparr>
        else if ?st = ''ignored/issues'' then counts\<lparr>c_Issues := c_Issues counts + 1\<rparr>
        else if ?st = ''ignored/empty'' then counts\<lparr>c_Empty := c_Empty counts + 1\<rparr>
        else counts"
    obtain config' counts' where r: "remove_parsed options files config1 ?counts1 =
        (filter (kept c0) files, config', counts')" "same_processed c0 config'"
      "c_Cached counts' = c_Cached ?counts1 + counted_as c0 [''parsed'', ''split''] files"
      "c_Issues counts' = c_Issues ?counts1 + counted_as c0 [''ignored/issues''] files"
      "c_Empty counts' = c_Empty ?counts1 + counted_as c0 [''ignored/empty''] files"
      "c_Success counts' = c_Success ?counts1" "c_Failed counts' = c_Failed ?counts1"
      using Cons.IH [OF o(1), of ?counts1] by (elim exE conjE)
    show ?thesis
    proof (cases "already_processed (Some ?st)")
      case True
      then have cs: "cached_status c0 xmlfile = Some ?st" by (rule o(2))
      have nk: "\<not> kept c0 xmlfile" using True cs by (simp add: kept_def)
      have e: "remove_parsed options (xmlfile # files) config counts = (filter (kept c0) (xmlfile # files), config', counts')"
        using False flags l r(1) nk True
        by (auto simp: ExtraFunc5_def already_processed_def)
      show ?thesis
        using e r(2-7) False cs True
        by (intro exI [of _ config'] exI [of _ counts'] conjI)
          (auto simp: counted_as_Cons already_processed_def)
    next
      case np: False
      then have ncs: "\<not> already_processed (cached_status c0 xmlfile)" by (rule o(3))
      have k: "kept c0 xmlfile" using False ncs by (simp add: kept_def)
      have c1: "?counts1 = counts" using np by (auto simp: already_processed_def)
      have e: "remove_parsed options (xmlfile # files) config counts = (filter (kept c0) (xmlfile # files), config', counts')"
        using False flags l r(1) k np c1
        by (auto simp: ExtraFunc5_def already_processed_def)
      have z: "cached_status c0 xmlfile \<notin> Some ` set [''parsed'', ''split'']"
        "cached_status c0 xmlfile \<notin> Some ` set [''ignored/issues'']"
        "cached_status c0 xmlfile \<notin> Some ` set [''ignored/empty'']"
        using ncs by (auto simp: already_processed_def)
      show ?thesis
        using e r(2-7) c1 z
        by (intro exI [of _ config'] exI [of _ counts'] conjI)
          (simp_all add: counted_as_Cons)
    qed
  qed
qed


text \<open>
  C7 (as amended). With the force-reparse and the wipe-output flags off, the loop that runs
  before any worker is started leaves in the work list exactly the files whose name does not end
  in \<^verbatim>\<open>.json\<close> and whose cache entry (the first entry with the name and size of the
  file) has no already-processed status, in their order. A removed file is counted once, by the
  status of its entry: \<^verbatim>\<open>parsed\<close> and \<^verbatim>\<open>split\<close> as cached, \<^verbatim>\<open>ignored/issues\<close> as issues,
  \<^verbatim>\<open>ignored/empty\<close> as empty; the other two counters do not move. A file whose name ends in
  \<^verbatim>\<open>.json\<close> is removed and counted nowhere. Output is written only by the workers, one for
  each file of the work list, so a removed file gets none.
\<close>

theorem unchanged_file_leaves_work_list:
  assumes "\<not> ForceReparse options" and "\<not> WipeOutput options"
  shows "\<exists>config' counts'.
      remove_parsed options files config counts = (filter (kept config) files, config', counts') \<and>
      c_Cached counts' = c_Cached counts + counted_as config [''parsed'', ''split''] files \<and>
      c_Issues counts' = c_Issues counts + counted_as config [''ignored/issues''] files \<and>
      c_Empty counts' = c_Empty counts + counted_as config [''ignored/empty''] files \<and>
      c_Success counts' = c_Success counts \<and> c_Failed counts' = c_Failed counts"
proof -
  have "same_processed config config" by (rule same_processed_refl)
  from remove_parsed_result [OF assms this, of files counts]
  obtain config' counts' where
    "remove_parsed options files config counts = (filter (kept config) files, config', counts')"
    "c_Cached counts' = c_Cached counts + counted_as config [''parsed'', ''split''] files"
    "c_Issues counts' = c_Issues counts + counted_as config [''ignored/issues''] files"
    "c_Empty counts' = c_Empty counts + counted_as config [''ignored/empty''] files"
    "c_Success counts' = c_Success counts" "c_Failed counts' = c_Failed counts"
    by (elim exE conjE)
  then show ?thesis
    by (intro exI [of _ config'] exI [of _ counts'] conjI)
qed

theorem unchanged_file_leaves_work_list_witness:
  "remove_parsed
     \<lparr>Config = \<lparr>OmitUnlisted = False, HeadersMandatory = [], HeadersOptional = [],
                 AuditHeaderConfigs = []\<rparr>,
      ReplaceNewLineFeeds = False, ForceReparse = False, ExcelFriendly = False,
      WipeOutput = False, Warnbox = ''[!] '', Box = ''[+] ''\<rparr>
     [\<lparr>Name = ''a.xml'', Size = 10\<rparr>, \<lparr>Name = ''b.xml'', Size = 20\<rparr>,
      \<lparr>Name = ''c.xml'', Size = 30\<rparr>, \<lparr>Name = ''d.xml'', Size = 40\<rparr>,
      \<lparr>Name = ''e.xml'', Size = 50\<rparr>]
     [\<lparr>InputFileName = ''a.xml'', InputFileSize = 10, Status = ''parsed''\<rparr>,
      \<lparr>InputFileName = ''b.xml'', InputFileSize = 21, Status = ''parsed''\<rparr>,
      \<lparr>InputFileName = ''c.xml'', InputFileSize = 30, Status = ''ignored/empty''\<rparr>,
      \<lparr>InputFileName = ''d.xml'', InputFileSize = 40, Status = ''ignored/issues''\<rparr>,
      \<lparr>InputFileName = ''e.xml'', InputFileSize = 50, Status = ''failed/error''\<rparr>]
     \<lparr>c_Success = 0, c_Cached = 0, c_Failed = 0, c_Empty = 0, c_Issues = 0\<rparr> =
   ([\<lparr>Name = ''b.xml'', Size = 20\<rparr>, \<lparr>Name = ''e.xml'', Size = 50\<rparr>],
    [\<lparr>InputFileName = ''a.xml'', InputFileSize = 10, Status = ''parsed''\<rparr>,
     \<lparr>InputFileName = ''b.xml'', InputFileSize = 21, Status = ''parsed''\<rparr>,
     \<lparr>InputFileName = ''c.xml'', InputFileSize = 30, Status = ''ignored/empty''\<rparr>,
     \<lparr>InputFileName = ''d.xml'', InputFileSize = 40, Status = ''ignored/issues''\<rparr>,
     \<lparr>InputFileName = ''e.xml'', InputFileSize = 50, Status = ''failed/error''\<rparr>,
     \<lparr>InputFileName = ''b.xml'', InputFileSize = 20, Status = ''failed/notattemptedyet''\<rparr>],
    \<lparr>c_Success = 0, c_Cached = 1, c_Failed = 0, c_Empty = 1, c_Issues = 1\<rparr>)"
proof -
  let ?o = "\<lparr>Config = \<lparr>OmitUnlisted = False, HeadersMandatory = [], HeadersOptional = [],
                 AuditHeaderConfigs = []\<rparr>,
      ReplaceNewLineFeeds = False, ForceReparse = False, ExcelFriendly = False,
      WipeOutput = False, Warnbox = ''[!] '', Box = ''[+] ''\<rparr>"
  let ?files = "[\<lparr>Name = ''a.xml'', Size = 10\<rparr>, \<lparr>Name = ''b.xml'', Size = 20\<rparr>,
      \<lparr>Name = ''c.xml'', Size = 30\<rparr>, \<lparr>Name = ''d.xml'', Size = 40\<rparr>,
      \<lparr>Name = ''e.xml'', Size = 50\<rparr>]"
  let ?config = "[\<lparr>InputFileName = ''a.xml'', InputFileSize = 10, Status = ''parsed''\<rparr>,
      \<lparr>InputFileName = ''b.xml'', InputFileSize = 21, Status = ''parsed''\<rparr>,
      \<lparr>InputFileName = ''c.xml'', InputFileSize = 30, Status = ''ignored/empty''\<rparr>,
      \<lparr>InputFileName = ''d.xml'', InputFileSize = 40, Status = ''ignored/issues''\<rparr>,
      \<lparr>InputFileName = ''e.xml'', InputFileSize = 50, Status = ''failed/error''\<rparr>]"
  let ?counts = "\<lparr>c_Success = 0, c_Cached = 0, c_Failed = 0, c_Empty = 0, c_Issues = 0\<rparr>"
  have flags: "\<not> ForceReparse ?o" "\<not> WipeOutput ?o"
    by simp_all
  from unchanged_file_leaves_work_list [OF flags, of ?files ?config ?counts]
  obtain config' counts' where
    r: "remove_parsed ?o ?files ?config ?counts = (filter (kept ?config) ?files, config', counts')"
    by (elim exE conjE)
  have "fst (remove_parsed ?o ?files ?config ?counts) = filter (kept ?config) ?files"
    using r by (rule arg_cong [where f = fst, THEN trans]) simp
  then show ?thesis
    by (simp add: InputConfig_GetXMLParseConfig_def same_file_def ExtraFunc5_def HasSuffix_rev
        Let_def)
qed

theorem json_named_file_is_not_counted:
  "same_file \<lparr>Name = ''a.json'', Size = 10\<rparr>
     \<lparr>InputFileName = ''a.json'', InputFileSize = 10, Status = ''parsed''\<rparr> \<and>
   remove_parsed
     \<lparr>Config = \<lparr>OmitUnlisted = False, HeadersMandatory = [], HeadersOptional = [],
                 AuditHeaderConfigs = []\<rparr>,
      ReplaceNewLineFeeds = False, ForceReparse = False, ExcelFriendly = False,
      WipeOutput = False, Warnbox = ''[!] '', Box = ''[+] ''\<rparr>
     [\<lparr>Name = ''a.json'', Size = 10\<rparr>]
     [\<lparr>InputFileName = ''a.json'', InputFileSize = 10, Status = ''parsed''\<rparr>]
     \<lparr>c_Success = 0, c_Cached = 0, c_Failed = 0, c_Empty = 0, c_Issues = 0\<rparr> =
   ([], [\<lparr>InputFileName = ''a.json'', InputFileSize = 10, Status = ''parsed''\<rparr>],
    \<lparr>c_Success = 0, c_Cached = 0, c_Failed = 0, c_Empty = 0, c_Issues = 0\<rparr>)"
  by (simp add: same_file_def HasSuffix_rev)

section \<open>Repeated fields\<close>









section \<open>Properties of the outcome of a worker\<close>

lemma Contains_iff: "Contains s p \<longleftrightarrow> (\<exists>u v. s = u @ p @ v)"
proof (induction s)
  case Nil
  then show ?case by simp
next
  case (Cons c cs)
  show ?case
  proof
    assume "Contains (c # cs) p"
    then consider "prefix p (c # cs)" | "Contains cs p" by auto
    then show "\<exists>u v. c # cs = u @ p @ v"
    proof cases
      case 1
      then obtain v where "c # cs = p @ v" by (auto simp: prefix_def)
      then have "c # cs = [] @ p @ v" by simp
      then show ?thesis by blast
    next
      case 2
      then obtain u v where "cs = u @ p @ v" using Cons.IH by blast
      then have "c # cs = (c # u) @ p @ v" by simp
      then show ?thesis by blast
    qed
  next
    assume "\<exists>u v. c # cs = u @ p @ v"
    then obtain u v where e: "c # cs = u @ p @ v" by blast
    show "Contains (c # cs) p"
    proof (cases u)
      case Nil
      then have "prefix p (c # cs)" using e by (simp add: prefix_def)
      then show ?thesis by simp
    next
      case (Cons a u')
      then have "cs = u' @ p @ v" using e by simp
      then have "Contains cs p" using Cons.IH by blast
      then show ?thesis by simp
    qed
  qed
qed

lemma Contains_separator:
  assumes q: "q \<notin> set p" and ne: "p \<noteq> []"
  shows "Contains (x @ q # y) p \<longleftrightarrow> Contains x p \<or> Contains y p"
proof
  assume "Contains (x @ q # y) p"
  then obtain u v where e: "x @ q # y = u @ p @ v" unfolding Contains_iff by blast
  from e consider w where "x = u @ w" "w @ q # y = p @ v" | w where "x @ w = u" "q # y = w @ p @ v"
    by (auto simp: append_eq_append_conv2)
  then show "Contains x p \<or> Contains y p"
  proof cases
    case 1
    from 1(2) consider w' where "w = p @ w'" | w' where "w @ w' = p" "q # y = w' @ v"
      by (auto simp: append_eq_append_conv2)
    then show ?thesis
    proof cases
      case 1
      then have "x = u @ p @ w'" using \<open>x = u @ w\<close> by simp
      then show ?thesis unfolding Contains_iff by blast
    next
      case 2
      show ?thesis
      proof (cases w')
        case Nil
        then have "x = u @ p @ []" using 2 \<open>x = u @ w\<close> by simp
        then show ?thesis unfolding Contains_iff by blast
      next
        case (Cons a w'')
        then have "q \<in> set p" using 2 by auto
        then show ?thesis using q by simp
      qed
    qed
  next
    case 2
    show ?thesis
    proof (cases w)
      case Nil
      then have "q # y = p @ v" using 2 by simp
      then have "q \<in> set p" using ne by (cases p) auto
      then show ?thesis using q by simp
    next
      case (Cons a w')
      then have "y = w' @ p @ v" using 2 by simp
      then show ?thesis unfolding Contains_iff by blast
    qed
  qed
next
  assume "Contains x p \<or> Contains y p"
  then show "Contains (x @ q # y) p"
  proof
    assume "Contains x p"
    then obtain u v where "x = u @ p @ v" unfolding Contains_iff by blast
    then have "x @ q # y = u @ p @ (v @ q # y)" by simp
    then show ?thesis unfolding Contains_iff by blast
  next
    assume "Contains y p"
    then obtain u v where "y = u @ p @ v" unfolding Contains_iff by blast
    then have "x @ q # y = (x @ q # u) @ p @ v" by simp
    then show ?thesis unfolding Contains_iff by blast
  qed
qed

lemma Contains_tail: "Contains s (a @ b) \<Longrightarrow> Contains s b"
proof -
  assume "Contains s (a @ b)"
  then obtain u v where "s = u @ (a @ b) @ v" unfolding Contains_iff by blast
  then have "s = (u @ a) @ b @ v" by simp
  then show ?thesis unfolding Contains_iff by blast
qed

lemma empty_message_Contains:
  assumes w: "Warnbox options = ''[!] ''" and q: "SQ \<notin> set p" and ne: "p \<noteq> []"
  shows "Contains (empty_message options xmlFileName) p \<longleftrightarrow>
     Contains ''[!] WARNING - File '' p \<or> Contains xmlFileName p \<or> Contains '' is empty.'' p"
proof -
  have "empty_message options xmlFileName =
      ''[!] WARNING - File '' @ SQ # (xmlFileName @ SQ # '' is empty.'')"
    by (simp add: empty_message_def w)
  then show ?thesis
    by (simp only: Contains_separator [OF q ne])
qed


lemma plain_nameD:
  assumes "plain_name n"
  shows "\<not> Contains n ''not rename''" "\<not> Contains n ''not parse file''"
    "\<not> Contains n ''does not exist''" "\<not> Contains n ''File was split''"
    "\<not> Contains n ''parsed successfully''" "\<not> Contains n ''already exists''"
    "\<not> Contains n ''Issues file''" "\<not> Contains n ''Could not rename''"
    "\<not> Contains n ''Could not parse file''"
proof -
  show a: "\<not> Contains n ''not rename''" "\<not> Contains n ''not parse file''"
    "\<not> Contains n ''does not exist''" "\<not> Contains n ''File was split''"
    "\<not> Contains n ''parsed successfully''" "\<not> Contains n ''already exists''"
    "\<not> Contains n ''Issues file''"
    using assms by (simp_all add: plain_name_def key_phrases_def)
  show "\<not> Contains n ''Could not rename''"
    using a(1) Contains_tail [of n "''Could ''" "''not rename''"] by auto
  show "\<not> Contains n ''Could not parse file''"
    using a(2) Contains_tail [of n "''Could ''" "''not parse file''"] by auto
qed

lemma empty_message_phrases:
  assumes w: "Warnbox options = ''[!] ''" and n: "plain_name n"
  shows "Contains (empty_message options n) ''is empty''"
    "\<not> Contains (empty_message options n) ''not rename''"
    "\<not> Contains (empty_message options n) ''not parse file''"
    "\<not> Contains (empty_message options n) ''does not exist''"
    "\<not> Contains (empty_message options n) ''File was split''"
    "\<not> Contains (empty_message options n) ''parsed successfully''"
    "\<not> Contains (empty_message options n) ''already exists''"
    "\<not> Contains (empty_message options n) ''Issues file''"
    "\<not> Contains (empty_message options n) ''Could not rename''"
    "\<not> Contains (empty_message options n) ''Could not parse file''"
  using plain_nameD [OF n]
  by (simp_all add: empty_message_Contains [OF w] SQ_def)

lemma status_of_empty_message:
  assumes "Warnbox options = ''[!] ''" and "plain_name n"
  shows "status_of_message (empty_message options n) = ''ignored/empty''"
  using empty_message_phrases [OF assms] by (simp add: status_of_message_def)

lemma count_empty_message:
  assumes "Warnbox options = ''[!] ''" and "plain_name n"
  shows "count_message (empty_message options n) counts = counts\<lparr>c_Empty := c_Empty counts + 1\<rparr>"
  using empty_message_phrases [OF assms] by (simp add: count_message_def)

lemma first_index_None: "first_index P xs = None \<longleftrightarrow> find P xs = None"
  by (induction xs) auto

lemma first_index_Some:
  "first_index P xs = Some i \<Longrightarrow> i < length xs \<and> P (xs ! i) \<and> find P (xs[i := y]) =
     (if P y then Some y else find P (drop (Suc i) xs))"
proof (induction xs arbitrary: i)
  case Nil
  then show ?case by simp
next
  case (Cons x xs)
  show ?case
  proof (cases "P x")
    case True
    then show ?thesis using Cons.prems by (auto simp: drop_Cons')
  next
    case False
    then obtain j where j: "first_index P xs = Some j" "i = Suc j"
      using Cons.prems by auto
    from Cons.IH [OF j(1)] show ?thesis using False j(2) by simp
  qed
qed

lemma ParseConfigUpdateXMLParse_status:
  "cached_status (ParseConfigUpdateXMLParse xmlfile msg config) xmlfile = Some (status_of_message msg)"
proof (cases "first_index (same_file xmlfile) config")
  case None
  then have "find (same_file xmlfile) config = None" by (simp add: first_index_None)
  then show ?thesis using None
    by (simp add: ParseConfigUpdateXMLParse_def cached_status_def find_append_none same_file_def)
next
  case (Some i)
  let ?y = "(config ! i)\<lparr>Status := status_of_message msg\<rparr>"
  from first_index_Some [OF Some, of ?y] have i: "i < length config" "same_file xmlfile (config ! i)"
    and f: "find (same_file xmlfile) (config[i := ?y]) =
      (if same_file xmlfile ?y then Some ?y else find (same_file xmlfile) (drop (Suc i) config))"
    by simp_all
  have "same_file xmlfile ?y" using i(2) by (simp add: same_file_def)
  then show ?thesis using Some f
    by (simp add: ParseConfigUpdateXMLParse_def cached_status_def)
qed


lemma count_messages_append:
  "count_messages (threadMessages @ [msg]) counts =
     count_message msg (count_messages threadMessages counts)"
  by (simp add: count_messages_def)

text \<open>
  C6. A worker that ends its scan with no row (Normal path) or with no table (event paths)
  returns the message \<^verbatim>\<open>WARNING - File '<name>' is empty.\<close>; on the Normal path it removes
  its temporary file, on the event paths it has created none, and in both it returns before
  anything is written, so the disk gets no new file. The name in the message is the name of
  the file. When the warn box is the \<^verbatim>\<open>[!]\<close> prefix the program sets and the name holds none
  of the phrases the orchestrator looks for in a message, the orchestrator stores the status
  \<^verbatim>\<open>ignored/empty\<close> in the cache entry of the file and adds one to the empty count and to no
  other count.
\<close>

theorem zero_row_file_reported_empty:
  assumes "Warnbox options = ''[!] ''" and "plain_name (Name xmlfile)"
  shows "\<exists>done.
      normal_after_scan options threadNum (Name xmlfile) (Size xmlfile) csvFilePathTemp []
        write_csv disk = (disk - {csvFilePathTemp}, done) \<and>
      events_after_scan options threadNum (Name xmlfile) (Size xmlfile) [] write_csvs disk =
        (disk, done) \<and>
      message done = empty_message options (Name xmlfile) \<and>
      fst (worker_done xmlfile done (threadMessages, config)) = threadMessages @ [message done] \<and>
      cached_status (snd (worker_done xmlfile done (threadMessages, config))) xmlfile =
        Some ''ignored/empty'' \<and>
      count_messages (threadMessages @ [message done]) counts =
        (count_messages threadMessages counts)
          \<lparr>c_Empty := c_Empty (count_messages threadMessages counts) + 1\<rparr>"
proof -
  let ?done = "\<lparr>threadnum = threadNum, xmlname = Name xmlfile, xmlsize = Size xmlfile,
      message = empty_message options (Name xmlfile)\<rparr>"
  have a: "normal_after_scan options threadNum (Name xmlfile) (Size xmlfile) csvFilePathTemp []
        write_csv disk = (disk - {csvFilePathTemp}, ?done)"
    by (simp add: normal_after_scan_def)
  have b: "events_after_scan options threadNum (Name xmlfile) (Size xmlfile) [] write_csvs disk =
        (disk, ?done)"
    by (simp add: events_after_scan_def)
  have c: "message ?done = empty_message options (Name xmlfile)"
    by simp
  have d: "fst (worker_done xmlfile ?done (threadMessages, config)) =
      threadMessages @ [message ?done]"
    by (simp add: worker_done_def)
  have e: "cached_status (snd (worker_done xmlfile ?done (threadMessages, config))) xmlfile =
        Some ''ignored/empty''"
    using ParseConfigUpdateXMLParse_status [of xmlfile "empty_message options (Name xmlfile)" config]
      status_of_empty_message [OF assms]
    by (simp add: worker_done_def)
  have f: "count_messages (threadMessages @ [message ?done]) counts =
        (count_messages threadMessages counts)
          \<lparr>c_Empty := c_Empty (count_messages threadMessages counts) + 1\<rparr>"
    using count_empty_message [OF assms, of "count_messages threadMessages counts"]
    by (simp add: count_messages_append)
  show ?thesis
    using a b c d e f by (intro exI [of _ ?done] conjI) assumption+
qed


theorem zero_row_file_reported_empty_witness:
  "Warnbox \<lparr>Config = \<lparr>OmitUnlisted = False, HeadersMandatory = [], HeadersOptional = [],
                   AuditHeaderConfigs = []\<rparr>,
        ReplaceNewLineFeeds = False, ForceReparse = False, ExcelFriendly = False,
        WipeOutput = False, Warnbox = ''[!] '', Box = ''[+] ''\<rparr> = ''[!] '' \<and>
   plain_name (Name \<lparr>Name = ''a.xml'', Size = 10\<rparr>) \<and>
   (\<exists>done.
      normal_after_scan \<lparr>Config = \<lparr>OmitUnlisted = False, HeadersMandatory = [], HeadersOptional = [],
                   AuditHeaderConfigs = []\<rparr>,
        ReplaceNewLineFeeds = False, ForceReparse = False, ExcelFriendly = False,
        WipeOutput = False, Warnbox = ''[!] '', Box = ''[+] ''\<rparr> 0
        (Name \<lparr>Name = ''a.xml'', Size = 10\<rparr>) (Size \<lparr>Name = ''a.xml'', Size = 10\<rparr>)
        ''out/a.csv.incomplete'' []
        (\<lambda>disk. (insert ''out/a.csv'' disk,
           \<lparr>threadnum = 0, xmlname = ''a.xml'', xmlsize = 10, message = ''written''\<rparr>))
        {''out/a.csv.incomplete'', ''out/b.csv''} =
        ({''out/a.csv.incomplete'', ''out/b.csv''} - {''out/a.csv.incomplete''}, done) \<and>
      events_after_scan \<lparr>Config = \<lparr>OmitUnlisted = False, HeadersMandatory = [], HeadersOptional = [],
                   AuditHeaderConfigs = []\<rparr>,
        ReplaceNewLineFeeds = False, ForceReparse = False, ExcelFriendly = False,
        WipeOutput = False, Warnbox = ''[!] '', Box = ''[+] ''\<rparr> 0
        (Name \<lparr>Name = ''a.xml'', Size = 10\<rparr>) (Size \<lparr>Name = ''a.xml'', Size = 10\<rparr>) []
        (\<lambda>disk. (insert ''out/a.csv'' disk,
           \<lparr>threadnum = 0, xmlname = ''a.xml'', xmlsize = 10, message = ''written''\<rparr>))
        {''out/a.csv.incomplete'', ''out/b.csv''} =
        ({''out/a.csv.incomplete'', ''out/b.csv''}, done) \<and>
      message done = empty_message \<lparr>Config = \<lparr>OmitUnlisted = False, HeadersMandatory = [], HeadersOptional = [],
                   AuditHeaderConfigs = []\<rparr>,
        ReplaceNewLineFeeds = False, ForceReparse = False, ExcelFriendly = False,
        WipeOutput = False, Warnbox = ''[!] '', Box = ''[+] ''\<rparr> (Name \<lparr>Name = ''a.xml'', Size = 10\<rparr>) \<and>
      fst (worker_done \<lparr>Name = ''a.xml'', Size = 10\<rparr> done
             ([], [\<lparr>InputFileName = ''a.xml'', InputFileSize = 10,
                    Status = ''failed/notattemptedyet''\<rparr>])) = [] @ [message done] \<and>
      cached_status
        (snd (worker_done \<lparr>Name = ''a.xml'', Size = 10\<rparr> done
             ([], [\<lparr>InputFileName = ''a.xml'', InputFileSize = 10,
                    Status = ''failed/notattemptedyet''\<rparr>])))
        \<lparr>Name = ''a.xml'', Size = 10\<rparr> = Some ''ignored/empty'' \<and>
      count_messages ([] @ [message done])
          \<lparr>c_Success = 0, c_Cached = 0, c_Failed = 0, c_Empty = 0, c_Issues = 0\<rparr> =
        (count_messages []
            \<lparr>c_Success = 0, c_Cached = 0, c_Failed = 0, c_Empty = 0, c_Issues = 0\<rparr>)
          \<lparr>c_Empty := c_Empty (count_messages []
            \<lparr>c_Success = 0, c_Cached = 0, c_Failed = 0, c_Empty = 0, c_Issues = 0\<rparr>) + 1\<rparr>)"
proof -
  let ?o = "\<lparr>Config = \<lparr>OmitUnlisted = False, HeadersMandatory = [], HeadersOptional = [],
                   AuditHeaderConfigs = []\<rparr>,
        ReplaceNewLineFeeds = False, ForceReparse = False, ExcelFriendly = False,
        WipeOutput = False, Warnbox = ''[!] '', Box = ''[+] ''\<rparr>"
  let ?f = "\<lparr>Name = ''a.xml'', Size = 10\<rparr>"
  have w: "Warnbox ?o = ''[!] ''"
    by simp
  have p: "plain_name (Name ?f)"
    by (simp add: plain_name_def key_phrases_def)
  show ?thesis
    by (intro conjI) (rule w p zero_row_file_reported_empty [OF w p])+
qed

theorem empty_file_with_a_phrase_in_its_name:
  "normal_after_scan \<lparr>Config = \<lparr>OmitUnlisted = False, HeadersMandatory = [], HeadersOptional = [],
                   AuditHeaderConfigs = []\<rparr>,
        ReplaceNewLineFeeds = False, ForceReparse = False, ExcelFriendly = False,
        WipeOutput = False, Warnbox = ''[!] '', Box = ''[+] ''\<rparr> 0
       ''Could not parse file.xml'' 10 ''out/a.csv.incomplete'' []
       (\<lambda>disk. (insert ''out/a.csv'' disk,
           \<lparr>threadnum = 0, xmlname = ''a.xml'', xmlsize = 10, message = ''written''\<rparr>))
       {''out/a.csv.incomplete''} =
     ({}, \<lparr>threadnum = 0, xmlname = ''Could not parse file.xml'', xmlsize = 10,
           message = ''[!] WARNING - File '' @ [SQ] @ ''Could not parse file.xml'' @ [SQ] @
             '' is empty.''\<rparr>) \<and>
   status_of_message (''[!] WARNING - File '' @ [SQ] @ ''Could not parse file.xml'' @ [SQ] @
       '' is empty.'') = ''failed/error'' \<and>
   ParseConfigUpdateXMLParse \<lparr>Name = ''Could not parse file.xml'', Size = 10\<rparr>
       (''[!] WARNING - File '' @ [SQ] @ ''Could not parse file.xml'' @ [SQ] @ '' is empty.'')
       [\<lparr>InputFileName = ''Could not parse file.xml'', InputFileSize = 10,
         Status = ''failed/notattemptedyet''\<rparr>] =
     [\<lparr>InputFileName = ''Could not parse file.xml'', InputFileSize = 10,
       Status = ''failed/error''\<rparr>] \<and>
   count_messages [''[!] WARNING - File '' @ [SQ] @ ''Could not parse file.xml'' @ [SQ] @
       '' is empty.'']
       \<lparr>c_Success = 0, c_Cached = 0, c_Failed = 0, c_Empty = 0, c_Issues = 0\<rparr> =
     \<lparr>c_Success = 0, c_Cached = 0, c_Failed = 1, c_Empty = 0, c_Issues = 0\<rparr> \<and>
   parse_events \<lparr>Config = \<lparr>OmitUnlisted = False, HeadersMandatory = [], HeadersOptional = [],
                   AuditHeaderConfigs = []\<rparr>,
        ReplaceNewLineFeeds = False, ForceReparse = False, ExcelFriendly = False,
        WipeOutput = False, Warnbox = ''[!] '', Box = ''[+] ''\<rparr> [(''fileWriteEvent'', [])] =
     Inr \<lparr>eventTypes = [(''FileWriteEvent'', 0)],
          allHeaders = [[(''Hostname'', 0), (''AgentID'', 1)]], tables = [[]]\<rparr> \<and>
   events_after_scan \<lparr>Config = \<lparr>OmitUnlisted = False, HeadersMandatory = [], HeadersOptional = [],
                   AuditHeaderConfigs = []\<rparr>,
        ReplaceNewLineFeeds = False, ForceReparse = False, ExcelFriendly = False,
        WipeOutput = False, Warnbox = ''[!] '', Box = ''[+] ''\<rparr> 0 ''a.xml'' 10 [[]]
       (\<lambda>disk. (insert ''out/a.csv'' disk,
           \<lparr>threadnum = 0, xmlname = ''a.xml'', xmlsize = 10, message = ''written''\<rparr>))
       {} =
     ({''out/a.csv''},
      \<lparr>threadnum = 0, xmlname = ''a.xml'', xmlsize = 10, message = ''written''\<rparr>)"
proof -
  let ?msg = "''[!] WARNING - File '' @ [SQ] @ ''Could not parse file.xml'' @ [SQ] @ '' is empty.''"
  have a: "Contains ?msg ''already exists'' = False" "Contains ?msg ''parsed successfully'' = False"
    "Contains ?msg ''Issues file'' = False" "Contains ?msg ''is empty'' = True"
    "Contains ?msg ''not rename'' = False" "Contains ?msg ''not parse file'' = True"
    "Contains ?msg ''does not exist'' = False" "Contains ?msg ''File was split'' = False"
    "Contains ?msg ''Could not rename'' = False" "Contains ?msg ''Could not parse file'' = True"
    by (simp_all add: SQ_def)
  have s: "status_of_message ?msg = ''failed/error''"
    by (simp only: status_of_message_def a Let_def if_True if_False)
  have c: "count_message ?msg \<lparr>c_Success = 0, c_Cached = 0, c_Failed = 0, c_Empty = 0, c_Issues = 0\<rparr> =
      \<lparr>c_Success = 0, c_Cached = 0, c_Failed = 1, c_Empty = 0, c_Issues = 0\<rparr>"
    by (simp add: count_message_def a del: Contains.simps append.simps)
  have n: "normal_after_scan \<lparr>Config = \<lparr>OmitUnlisted = False, HeadersMandatory = [], HeadersOptional = [],
                   AuditHeaderConfigs = []\<rparr>,
        ReplaceNewLineFeeds = False, ForceReparse = False, ExcelFriendly = False,
        WipeOutput = False, Warnbox = ''[!] '', Box = ''[+] ''\<rparr> 0
       ''Could not parse file.xml'' 10 ''out/a.csv.incomplete'' []
       (\<lambda>disk. (insert ''out/a.csv'' disk,
           \<lparr>threadnum = 0, xmlname = ''a.xml'', xmlsize = 10, message = ''written''\<rparr>))
       {''out/a.csv.incomplete''} =
     ({}, \<lparr>threadnum = 0, xmlname = ''Could not parse file.xml'', xmlsize = 10, message = ?msg\<rparr>)"
    by (simp add: normal_after_scan_def empty_message_def)
  have u: "ParseConfigUpdateXMLParse \<lparr>Name = ''Could not parse file.xml'', Size = 10\<rparr> ?msg
       [\<lparr>InputFileName = ''Could not parse file.xml'', InputFileSize = 10,
         Status = ''failed/notattemptedyet''\<rparr>] =
     [\<lparr>InputFileName = ''Could not parse file.xml'', InputFileSize = 10,
       Status = ''failed/error''\<rparr>]"
    by (simp add: ParseConfigUpdateXMLParse_def same_file_def s del: Contains.simps append.simps)
  have m: "count_messages [?msg]
       \<lparr>c_Success = 0, c_Cached = 0, c_Failed = 0, c_Empty = 0, c_Issues = 0\<rparr> =
     \<lparr>c_Success = 0, c_Cached = 0, c_Failed = 1, c_Empty = 0, c_Issues = 0\<rparr>"
    by (simp add: count_messages_def c del: Contains.simps append.simps)
  have e: "parse_events \<lparr>Config = \<lparr>OmitUnlisted = False, HeadersMandatory = [], HeadersOptional = [],
                   AuditHeaderConfigs = []\<rparr>,
        ReplaceNewLineFeeds = False, ForceReparse = False, ExcelFriendly = False,
        WipeOutput = False, Warnbox = ''[!] '', Box = ''[+] ''\<rparr> [(''fileWriteEvent'', [])] =
     Inr \<lparr>eventTypes = [(''FileWriteEvent'', 0)],
          allHeaders = [[(''Hostname'', 0), (''AgentID'', 1)]], tables = [[]]\<rparr>"
    by (simp add: parse_events_def event_item_def event_type_id_def set_header_at_def
        UpperCamelCase_def ToUpper1_def lower_letters_def upper_letters_def)
  have v: "events_after_scan \<lparr>Config = \<lparr>OmitUnlisted = False, HeadersMandatory = [], HeadersOptional = [],
                   AuditHeaderConfigs = []\<rparr>,
        ReplaceNewLineFeeds = False, ForceReparse = False, ExcelFriendly = False,
        WipeOutput = False, Warnbox = ''[!] '', Box = ''[+] ''\<rparr> 0 ''a.xml'' 10 [[]]
       (\<lambda>disk. (insert ''out/a.csv'' disk,
           \<lparr>threadnum = 0, xmlname = ''a.xml'', xmlsize = 10, message = ''written''\<rparr>))
       {} =
     ({''out/a.csv''},
      \<lparr>threadnum = 0, xmlname = ''a.xml'', xmlsize = 10, message = ''written''\<rparr>)"
    by (simp add: events_after_scan_def)
  show ?thesis
    by (intro conjI) (rule n s u m e v)+
qed

end
